theory Spec2Isabelle
  imports Main
begin

section \<open>Exceptions\<close>

text \<open>
  The Python exception classes that the two modules catch or let through. Every
  fallible operation of the model returns \<open>exn + 'a\<close> with \<open>Inl\<close> the raised exception.
\<close>

datatype os_error =
    PlainOSError
  | FileNotFoundError
  | PermissionError
  | ConnectionError
  | ConnectionRefusedError
  | ConnectionResetError
  | BrokenPipeError
  | TimeoutError
  | GaiError

datatype exn =
    OSError os_error
  | TimeoutExpired
  | ValueError
  | RecursionError
  | JSONDecodeError
  | UnicodeDecodeError
  | UnicodeEncodeError
  | TypeError
  | AttributeError

text \<open>The \<open>isinstance\<close> tests of the \<open>except\<close> clauses, in the class hierarchy of
  Python 3.11 and later, where \<open>socket.timeout\<close> and \<open>asyncio.TimeoutError\<close> are the
  builtin \<open>TimeoutError\<close>, a subclass of \<open>OSError\<close>. An operating-system call
  (\<open>close\<close>, \<open>unlink\<close>, \<open>connect\<close>, \<open>send\<close>, \<open>recv\<close>, process creation) fails with
  an \<open>os_error\<close> only.\<close>

fun is_OSError :: "exn \<Rightarrow> bool" where
  "is_OSError (OSError k) = True"
| "is_OSError _ = False"

fun is_ConnectionError :: "exn \<Rightarrow> bool" where
  "is_ConnectionError (OSError k) =
     (k = ConnectionError \<or> k = ConnectionRefusedError \<or> k = ConnectionResetError
      \<or> k = BrokenPipeError)"
| "is_ConnectionError _ = False"

fun is_TimeoutError :: "exn \<Rightarrow> bool" where
  "is_TimeoutError (OSError k) = (k = TimeoutError)"
| "is_TimeoutError _ = False"

section \<open>Python values that JSON can carry\<close>

text \<open>
  A Python \<open>str\<close> is a list of code points, \<open>bytes\<close> a list of 8-bit characters. \<open>ustr\<close>
  writes an ASCII literal as a \<open>str\<close>.
\<close>

type_synonym ustring = "nat list"
type_synonym bytes = string

definition ustr :: "string \<Rightarrow> ustring" where
  "ustr s = map of_char s"

text \<open>
  A \<open>float\<close> is represented by the parts of its decimal literal: sign, integer part,
  digits of the fraction, and the exponent (its sign and digits), as \<open>float.__repr__\<close>
  prints them and as the decoder reads them. Two literals of one number are two values
  here; the arithmetic of floats is not modelled.
\<close>

datatype pyfloat =
    Finite bool nat "nat list" "(bool \<times> nat list) option"
  | NaN
  | Infinity
  | NegInfinity

text \<open>The values \<open>json.loads\<close> returns and \<open>json.dumps\<close> accepts. A \<open>dict\<close> keeps its
  insertion order and has \<open>str\<close> keys, each at most once.\<close>

datatype json =
    JNull
  | JBool bool
  | JInt int
  | JFloat pyfloat
  | JStr ustring
  | JArr "json list"
  | JObj "(ustring \<times> json) list"

fun float_is_zero :: "pyfloat \<Rightarrow> bool" where
  "float_is_zero (Finite neg ip frac ex) = (ip = 0 \<and> list_all (\<lambda>d. d = 0) frac)"
| "float_is_zero _ = False"

text \<open>Python's truth value of an object (\<open>bool(x)\<close>).\<close>

fun truthy :: "json \<Rightarrow> bool" where
  "truthy JNull = False"
| "truthy (JBool b) = b"
| "truthy (JInt n) = (n \<noteq> 0)"
| "truthy (JFloat f) = (\<not> float_is_zero f)"
| "truthy (JStr s) = (s \<noteq> [])"
| "truthy (JArr xs) = (xs \<noteq> [])"
| "truthy (JObj kvs) = (kvs \<noteq> [])"

fun is_dict :: "json \<Rightarrow> bool" where
  "is_dict (JObj kvs) = True"
| "is_dict _ = False"

text \<open>\<open>d.get(k)\<close> and \<open>d.get(k, default)\<close> on a \<open>dict\<close>; \<open>None\<close> is \<open>JNull\<close>.\<close>

definition dict_get :: "(ustring \<times> json) list \<Rightarrow> ustring \<Rightarrow> json \<Rightarrow> json" where
  "dict_get kvs k dflt = (case map_of kvs k of None \<Rightarrow> dflt | Some v \<Rightarrow> v)"

definition dict_has :: "(ustring \<times> json) list \<Rightarrow> ustring \<Rightarrow> bool" where
  "dict_has kvs k = (map_of kvs k \<noteq> None)"

text \<open>\<open>d[k] = v\<close>: a new key goes last, an old one keeps its place.\<close>

fun dict_set :: "(ustring \<times> json) list \<Rightarrow> ustring \<Rightarrow> json \<Rightarrow> (ustring \<times> json) list" where
  "dict_set [] k v = [(k, v)]"
| "dict_set ((k', v') # kvs) k v =
     (if k' = k then (k, v) # kvs else (k', v') # dict_set kvs k v)"

section \<open>net.py: framing\<close>

subsection \<open>\<open>json.dumps(msg, separators=(",", ":"))\<close>\<close>

function dec_digits :: "nat \<Rightarrow> ustring" where
  "dec_digits n = (if n < 10 then [48 + n] else dec_digits (n div 10) @ [48 + n mod 10])"
  by pat_completeness auto
termination
  by (relation "measure id") auto

declare dec_digits.simps [simp del]

definition int_repr :: "int \<Rightarrow> ustring" where
  "int_repr i = (if i < 0 then 45 # dec_digits (nat (- i)) else dec_digits (nat i))"

definition digit_chars :: "nat list \<Rightarrow> ustring" where
  "digit_chars ds = map (\<lambda>d. 48 + d mod 10) ds"

fun float_repr :: "pyfloat \<Rightarrow> ustring" where
  "float_repr (Finite neg ip frac ex) =
     (if neg then [45] else []) @ dec_digits ip
     @ (if frac = [] then [] else 46 # digit_chars frac)
     @ (case ex of
          None \<Rightarrow> []
        | Some (eneg, ds) \<Rightarrow> 101 # (if eneg then 45 else 43) # digit_chars ds)"
| "float_repr NaN = ustr ''NaN''"
| "float_repr Infinity = ustr ''Infinity''"
| "float_repr NegInfinity = ustr ''-Infinity''"

definition hex_digit :: "nat \<Rightarrow> nat" where
  "hex_digit d = (if d < 10 then 48 + d else 87 + d)"

definition hex4 :: "nat \<Rightarrow> ustring" where
  "hex4 n = [hex_digit (n div 4096 mod 16), hex_digit (n div 256 mod 16),
             hex_digit (n div 16 mod 16), hex_digit (n mod 16)]"

text \<open>One code point under \<open>ensure_ascii\<close>: the short escapes, \<open>\uXXXX\<close> for everything else
  outside the printable ASCII range, a surrogate pair above the basic plane.\<close>

definition escape_char :: "nat \<Rightarrow> ustring" where
  "escape_char c =
     (if c = 92 then [92, 92]
      else if c = 34 then [92, 34]
      else if c = 8 then [92, 98]
      else if c = 12 then [92, 102]
      else if c = 10 then [92, 110]
      else if c = 13 then [92, 114]
      else if c = 9 then [92, 116]
      else if 32 \<le> c \<and> c \<le> 126 then [c]
      else if c < 65536 then 92 # 117 # hex4 c
      else 92 # 117 # hex4 (55296 + (c - 65536) div 1024 mod 1024)
           @ 92 # 117 # hex4 (56320 + (c - 65536) mod 1024))"

definition dumps_str :: "ustring \<Rightarrow> ustring" where
  "dumps_str s = 34 # concat (map escape_char s) @ [34]"

fun json_dumps :: "json \<Rightarrow> ustring"
  and dumps_items :: "json list \<Rightarrow> ustring"
  and dumps_pairs :: "(ustring \<times> json) list \<Rightarrow> ustring" where
  "json_dumps JNull = ustr ''null''"
| "json_dumps (JBool b) = (if b then ustr ''true'' else ustr ''false'')"
| "json_dumps (JInt i) = int_repr i"
| "json_dumps (JFloat f) = float_repr f"
| "json_dumps (JStr s) = dumps_str s"
| "json_dumps (JArr xs) = 91 # dumps_items xs @ [93]"
| "json_dumps (JObj kvs) = 123 # dumps_pairs kvs @ [125]"
| "dumps_items [] = []"
| "dumps_items [x] = json_dumps x"
| "dumps_items (x # y # xs) = json_dumps x @ 44 # dumps_items (y # xs)"
| "dumps_pairs [] = []"
| "dumps_pairs [(k, v)] = dumps_str k @ 58 # json_dumps v"
| "dumps_pairs ((k, v) # kv # kvs) = dumps_str k @ 58 # json_dumps v @ 44 # dumps_pairs (kv # kvs)"

subsection \<open>\<open>str.encode()\<close> and \<open>bytes.decode()\<close>: UTF-8\<close>

definition utf8_encode_char :: "nat \<Rightarrow> exn + bytes" where
  "utf8_encode_char c =
     (if c < 128 then Inr [char_of c]
      else if c < 2048 then Inr [char_of (192 + c div 64), char_of (128 + c mod 64)]
      else if 55296 \<le> c \<and> c \<le> 57343 then Inl UnicodeEncodeError
      else if c < 65536 then
        Inr [char_of (224 + c div 4096), char_of (128 + c div 64 mod 64), char_of (128 + c mod 64)]
      else if c < 1114112 then
        Inr [char_of (240 + c div 262144), char_of (128 + c div 4096 mod 64),
             char_of (128 + c div 64 mod 64), char_of (128 + c mod 64)]
      else Inl UnicodeEncodeError)"

fun str_encode :: "ustring \<Rightarrow> exn + bytes" where
  "str_encode [] = Inr []"
| "str_encode (c # cs) =
     (case utf8_encode_char c of
        Inl e \<Rightarrow> Inl e
      | Inr b \<Rightarrow> (case str_encode cs of Inl e \<Rightarrow> Inl e | Inr bs \<Rightarrow> Inr (b @ bs)))"

text \<open>\<open>encode_msg\<close>: \<open>(json.dumps(msg, separators=(",", ":")) + "\n").encode()\<close>.\<close>

definition encode_msg :: "json \<Rightarrow> exn + bytes" where
  "encode_msg msg = str_encode (json_dumps msg @ [10])"

subsection \<open>\<open>json.loads\<close>\<close>

text \<open>
  The decoder of the \<open>json\<close> module, after \<open>json/decoder.py\<close>, \<open>json/scanner.py\<close> and the
  scanner of \<open>_json.c\<close>: each scanner takes the text from its current position and returns
  the value with the text that is left, or the exception Python raises there. These are
  \<open>JSONDecodeError\<close> for a text that is not JSON, and two that are no \<open>JSONDecodeError\<close>:
  \<open>ValueError\<close> from \<open>int\<close> for an integer literal of more than \<open>int_max_str_digits\<close> digits
  (4300 unless the interpreter is configured otherwise), and \<open>RecursionError\<close> when arrays
  and objects are nested deeper than the interpreter allows. How deep that is depends on
  the recursion limit and on the call stack at the time of the call, so the scanners take
  it as a parameter, \<open>lim\<close>: the number of nested arrays and objects that may still be
  entered. The comparisons \<open>length r < length s\<close> in \<open>scan_items\<close> and \<open>scan_members\<close> are
  there for the termination proof; they always hold (\<open>scan_shorter\<close> below).
\<close>

definition is_ws :: "nat \<Rightarrow> bool" where
  "is_ws c = (c = 32 \<or> c = 9 \<or> c = 10 \<or> c = 13)"

definition skip_ws :: "ustring \<Rightarrow> ustring" where
  "skip_ws s = dropWhile is_ws s"

definition is_digit :: "nat \<Rightarrow> bool" where
  "is_digit c = (48 \<le> c \<and> c \<le> 57)"

definition hex_val :: "nat \<Rightarrow> nat option" where
  "hex_val c = (if 48 \<le> c \<and> c \<le> 57 then Some (c - 48)
                else if 97 \<le> c \<and> c \<le> 102 then Some (c - 87)
                else if 65 \<le> c \<and> c \<le> 70 then Some (c - 55)
                else None)"

fun decode_uXXXX :: "ustring \<Rightarrow> nat option" where
  "decode_uXXXX (a # b # c # d # s) =
     (case (hex_val a, hex_val b, hex_val c, hex_val d) of
        (Some x, Some y, Some z, Some w) \<Rightarrow> Some (x * 4096 + y * 256 + z * 16 + w)
      | _ \<Rightarrow> None)"
| "decode_uXXXX _ = None"

definition backslash :: "nat \<Rightarrow> nat option" where
  "backslash e =
     (if e = 34 then Some 34 else if e = 92 then Some 92 else if e = 47 then Some 47
      else if e = 98 then Some 8 else if e = 102 then Some 12 else if e = 110 then Some 10
      else if e = 114 then Some 13 else if e = 116 then Some 9 else None)"

definition scan_escape :: "ustring \<Rightarrow> (nat \<times> nat) option" where
  "scan_escape s =
     (case s of
        [] \<Rightarrow> None
      | e # s1 \<Rightarrow>
          if e \<noteq> 117 then map_option (\<lambda>ch. (ch, 1)) (backslash e)
          else
            (case decode_uXXXX s1 of
               None \<Rightarrow> None
             | Some uni \<Rightarrow>
                 if 55296 \<le> uni \<and> uni \<le> 56319 \<and> take 2 (drop 4 s1) = [92, 117] then
                   (case decode_uXXXX (drop 6 s1) of
                      None \<Rightarrow> None
                    | Some uni2 \<Rightarrow>
                        if 56320 \<le> uni2 \<and> uni2 \<le> 57343
                        then Some (65536 + ((uni - 55296) * 1024 + (uni2 - 56320)), 11)
                        else Some (uni, 5))
                 else Some (uni, 5)))"

function scanstring :: "ustring \<Rightarrow> (ustring \<times> ustring) option" where
  "scanstring [] = None"
| "scanstring (c # s) =
     (if c = 34 then Some ([], s)
      else if c = 92 then
        (case scan_escape s of
           None \<Rightarrow> None
         | Some (ch, n) \<Rightarrow> map_option (\<lambda>(t, r). (ch # t, r)) (scanstring (drop n s)))
      else if c < 32 then None
      else map_option (\<lambda>(t, r). (c # t, r)) (scanstring s))"
  by pat_completeness auto
termination
  by (relation "measure length") auto

definition digits_val :: "ustring \<Rightarrow> nat" where
  "digits_val ds = foldl (\<lambda>a c. a * 10 + (c - 48)) 0 ds"

definition scan_int_part :: "ustring \<Rightarrow> ustring" where
  "scan_int_part s =
     (case s of [] \<Rightarrow> [] | c # r \<Rightarrow> if c = 48 then [48] else takeWhile is_digit s)"

definition scan_frac :: "ustring \<Rightarrow> ustring" where
  "scan_frac s =
     (case s of [] \<Rightarrow> [] | c # r \<Rightarrow> if c = 46 then takeWhile is_digit r else [])"

definition scan_exp :: "ustring \<Rightarrow> (bool \<times> ustring) option \<times> nat" where
  "scan_exp s =
     (case s of
        [] \<Rightarrow> (None, 0)
      | c # r \<Rightarrow>
          if c = 101 \<or> c = 69 then
            (case r of
               [] \<Rightarrow> (None, 0)
             | g # r1 \<Rightarrow>
                 if g = 45 \<or> g = 43 then
                   (if takeWhile is_digit r1 = [] then (None, 0)
                    else (Some (g = 45, takeWhile is_digit r1), 2 + length (takeWhile is_digit r1)))
                 else
                   (if takeWhile is_digit r = [] then (None, 0)
                    else (Some (False, takeWhile is_digit r), 1 + length (takeWhile is_digit r))))
          else (None, 0))"

definition int_max_str_digits :: nat where
  "int_max_str_digits = 4300"

text \<open>The number at the start of the text, if there is one (\<open>NUMBER_RE.match\<close>), through
  \<open>int\<close> or \<open>float\<close>.\<close>

definition match_number :: "ustring \<Rightarrow> (exn + (json \<times> ustring)) option" where
  "match_number s =
     (let neg = (s \<noteq> [] \<and> hd s = 45);
          s1 = (if neg then tl s else s);
          ip = scan_int_part s1
      in if ip = [] then None
         else
           (let s2 = drop (length ip) s1;
                frac = scan_frac s2;
                s3 = (if frac = [] then s2 else drop (1 + length frac) s2);
                (ex, n) = scan_exp s3;
                s4 = drop n s3
            in if frac = [] \<and> ex = None
               then (if int_max_str_digits < length ip then Some (Inl ValueError)
                     else Some (Inr (JInt (if neg then - int (digits_val ip)
                                           else int (digits_val ip)), s4)))
               else Some (Inr (JFloat (Finite neg (digits_val ip) (map (\<lambda>c. c - 48) frac)
                            (map_option (\<lambda>(sg, ds). (sg, map (\<lambda>c. c - 48) ds)) ex)), s4))))"

fun strip_prefix :: "ustring \<Rightarrow> ustring \<Rightarrow> ustring option" where
  "strip_prefix [] s = Some s"
| "strip_prefix (p # ps) [] = None"
| "strip_prefix (p # ps) (c # s) = (if p = c then strip_prefix ps s else None)"

fun dict_of_pairs :: "(ustring \<times> json) list \<Rightarrow> (ustring \<times> json) list \<Rightarrow> (ustring \<times> json) list" where
  "dict_of_pairs d [] = d"
| "dict_of_pairs d ((k, v) # kvs) = dict_of_pairs (dict_set d k v) kvs"

lemma length_skip_ws: "length (skip_ws s) \<le> length s"
  unfolding skip_ws_def by (rule length_dropWhile_le)

function scan_once :: "nat \<Rightarrow> ustring \<Rightarrow> exn + (json \<times> ustring)"
  and scan_items :: "nat \<Rightarrow> ustring \<Rightarrow> exn + (json list \<times> ustring)"
  and scan_members :: "nat \<Rightarrow> ustring \<Rightarrow> exn + ((ustring \<times> json) list \<times> ustring)" where
  "scan_once lim [] = Inl JSONDecodeError"
| "scan_once lim (c # s) =
     (if c = 34 then
        (case scanstring s of None \<Rightarrow> Inl JSONDecodeError | Some (t, r) \<Rightarrow> Inr (JStr t, r))
      else if c = 123 then
        (if lim = 0 then Inl RecursionError
         else
           (case skip_ws s of
              [] \<Rightarrow> Inl JSONDecodeError
            | d # r \<Rightarrow>
                if d = 125 then Inr (JObj [], r)
                else
                  (case scan_members (lim - 1) (skip_ws s) of
                     Inl e \<Rightarrow> Inl e
                   | Inr (kvs, r') \<Rightarrow> Inr (JObj (dict_of_pairs [] kvs), r'))))
      else if c = 91 then
        (if lim = 0 then Inl RecursionError
         else
           (case skip_ws s of
              [] \<Rightarrow> Inl JSONDecodeError
            | d # r \<Rightarrow>
                if d = 93 then Inr (JArr [], r)
                else
                  (case scan_items (lim - 1) (skip_ws s) of
                     Inl e \<Rightarrow> Inl e
                   | Inr (vs, r') \<Rightarrow> Inr (JArr vs, r'))))
      else if c = 110 \<and> take 4 (c # s) = ustr ''null'' then Inr (JNull, drop 3 s)
      else if c = 116 \<and> take 4 (c # s) = ustr ''true'' then Inr (JBool True, drop 3 s)
      else if c = 102 \<and> take 5 (c # s) = ustr ''false'' then Inr (JBool False, drop 4 s)
      else
        (case match_number (c # s) of
           Some res \<Rightarrow> res
         | None \<Rightarrow>
             if c = 78 \<and> take 3 (c # s) = ustr ''NaN'' then Inr (JFloat NaN, drop 2 s)
             else if c = 73 \<and> take 8 (c # s) = ustr ''Infinity''
               then Inr (JFloat Infinity, drop 7 s)
             else if c = 45 \<and> take 9 (c # s) = ustr ''-Infinity''
               then Inr (JFloat NegInfinity, drop 8 s)
             else Inl JSONDecodeError))"
| "scan_items lim s =
     (case scan_once lim s of
        Inl e \<Rightarrow> Inl e
      | Inr (v, r) \<Rightarrow>
          (case skip_ws r of
             [] \<Rightarrow> Inl JSONDecodeError
           | d # r1 \<Rightarrow>
               if d = 93 then Inr ([v], r1)
               else if d = 44 \<and> length r1 < length s then
                 (case scan_items lim (skip_ws r1) of
                    Inl e \<Rightarrow> Inl e
                  | Inr (vs, r') \<Rightarrow> Inr (v # vs, r'))
               else Inl JSONDecodeError))"
| "scan_members lim s =
     (case s of
        [] \<Rightarrow> Inl JSONDecodeError
      | q # s0 \<Rightarrow>
          if q \<noteq> 34 then Inl JSONDecodeError
          else
            (case scanstring s0 of
               None \<Rightarrow> Inl JSONDecodeError
             | Some (k, r) \<Rightarrow>
                 (case skip_ws r of
                    [] \<Rightarrow> Inl JSONDecodeError
                  | col # r1 \<Rightarrow>
                      if col \<noteq> 58 \<or> \<not> length r1 < length s then Inl JSONDecodeError
                      else
                        (case scan_once lim (skip_ws r1) of
                           Inl e \<Rightarrow> Inl e
                         | Inr (v, r2) \<Rightarrow>
                             (case skip_ws r2 of
                                [] \<Rightarrow> Inl JSONDecodeError
                              | d # r3 \<Rightarrow>
                                  if d = 125 then Inr ([(k, v)], r3)
                                  else if d = 44 \<and> length r3 < length s then
                                    (case scan_members lim (skip_ws r3) of
                                       Inl e \<Rightarrow> Inl e
                                     | Inr (kvs, r') \<Rightarrow> Inr ((k, v) # kvs, r'))
                                  else Inl JSONDecodeError)))))"
  by pat_completeness auto

termination
proof (relation "measure (\<lambda>x. case x of Inl (l, s) \<Rightarrow> 2 * length s
                                 | Inr (Inl (l, s)) \<Rightarrow> 2 * length s + 1
                                 | Inr (Inr (l, s)) \<Rightarrow> 2 * length s + 1)", goal_cases)
  case 1
  show ?case by simp
next
  case (2 lim c s d r)
  show ?case using length_skip_ws [of s] by simp
next
  case (3 lim c s d r)
  show ?case using length_skip_ws [of s] by simp
next
  case 4
  show ?case by simp
next
  case (5 lim s x v r d r1)
  then show ?case using length_skip_ws [of r1] by simp
next
  case (6 lim s q s0 x k r col r1)
  then show ?case using length_skip_ws [of r1] by simp
next
  case (7 lim s q s0 x k r col r1 y v r2 d r3)
  then show ?case using length_skip_ws [of r3] by simp
qed

declare scan_items.simps [simp del] scan_members.simps [simp del]

text \<open>\<open>json.loads\<close> on a \<open>str\<close>, with \<open>lim\<close> levels of nesting left to the interpreter.\<close>

definition json_loads :: "nat \<Rightarrow> ustring \<Rightarrow> exn + json" where
  "json_loads lim s =
     (case scan_once lim (skip_ws s) of
        Inl e \<Rightarrow> Inl e
      | Inr (v, r) \<Rightarrow> if skip_ws r = [] then Inr v else Inl JSONDecodeError)"


subsection \<open>\<open>read_msg\<close>\<close>

definition is_cont :: "nat \<Rightarrow> bool" where
  "is_cont b = (128 \<le> b \<and> b \<le> 191)"

fun utf8_decode :: "nat list \<Rightarrow> ustring option" where
  "utf8_decode [] = Some []"
| "utf8_decode (b # s) =
     (if b < 128 then map_option (\<lambda>t. b # t) (utf8_decode s)
      else if 194 \<le> b \<and> b \<le> 223 then
        (case s of
           c1 # r \<Rightarrow>
             if is_cont c1
             then map_option (\<lambda>t. ((b - 192) * 64 + (c1 - 128)) # t) (utf8_decode r)
             else None
         | _ \<Rightarrow> None)
      else if 224 \<le> b \<and> b \<le> 239 then
        (case s of
           c1 # c2 # r \<Rightarrow>
             if is_cont c1 \<and> is_cont c2
                \<and> 2048 \<le> (b - 224) * 4096 + (c1 - 128) * 64 + (c2 - 128)
                \<and> \<not> (55296 \<le> (b - 224) * 4096 + (c1 - 128) * 64 + (c2 - 128)
                      \<and> (b - 224) * 4096 + (c1 - 128) * 64 + (c2 - 128) \<le> 57343)
             then map_option (\<lambda>t. ((b - 224) * 4096 + (c1 - 128) * 64 + (c2 - 128)) # t)
                    (utf8_decode r)
             else None
         | _ \<Rightarrow> None)
      else if 240 \<le> b \<and> b \<le> 244 then
        (case s of
           c1 # c2 # c3 # r \<Rightarrow>
             if is_cont c1 \<and> is_cont c2 \<and> is_cont c3
                \<and> 65536 \<le> (b - 240) * 262144 + (c1 - 128) * 4096 + (c2 - 128) * 64 + (c3 - 128)
                \<and> (b - 240) * 262144 + (c1 - 128) * 4096 + (c2 - 128) * 64 + (c3 - 128) < 1114112
             then map_option
                    (\<lambda>t. ((b - 240) * 262144 + (c1 - 128) * 4096 + (c2 - 128) * 64 + (c3 - 128)) # t)
                    (utf8_decode r)
             else None
         | _ \<Rightarrow> None)
      else None)"

text \<open>\<open>line.decode()\<close>: strict UTF-8.\<close>

definition bytes_decode :: "bytes \<Rightarrow> exn + ustring" where
  "bytes_decode b =
     (case utf8_decode (map of_char b) of None \<Rightarrow> Inl UnicodeDecodeError | Some t \<Rightarrow> Inr t)"

text \<open>
  The part of \<open>read_msg\<close> after the read, the spec's \<open>decode_line\<close>. Python's \<open>None\<close> is
  \<open>JNull\<close>: what \<open>json.loads\<close> returns for \<open>null\<close> is the very value that stands for "no
  message". The \<open>except\<close> clause names \<open>JSONDecodeError\<close> and \<open>UnicodeDecodeError\<close>; any
  other exception of \<open>json.loads\<close> leaves the function.
\<close>

definition decode_line :: "nat \<Rightarrow> bytes \<Rightarrow> exn + json" where
  "decode_line lim line =
     (if line = [] then Inr JNull
      else
        (case (case bytes_decode line of Inl e \<Rightarrow> Inl e | Inr t \<Rightarrow> json_loads lim t) of
           Inr v \<Rightarrow> Inr v
         | Inl e \<Rightarrow> if e = JSONDecodeError \<or> e = UnicodeDecodeError then Inr JNull else Inl e))"

text \<open>
  An \<open>asyncio.StreamReader\<close> is the list of what its coming \<open>readline()\<close> calls meet: a
  line (empty at end of file), nothing for 30 seconds, a transport error, or a line longer
  than the reader's limit, for which \<open>readline\<close> raises \<open>ValueError\<close>. An exhausted list is
  the end of the stream.
\<close>

datatype read_event = Line bytes | Stall | Broken os_error | Overrun

type_synonym reader = "read_event list"

fun readline :: "reader \<Rightarrow> (exn + bytes) \<times> reader" where
  "readline [] = (Inr [], [])"
| "readline (Line b # r) = (Inr b, r)"
| "readline (Stall # r) = (Inl (OSError TimeoutError), r)"
| "readline (Broken k # r) = (Inl (OSError k), r)"
| "readline (Overrun # r) = (Inl ValueError, r)"

definition read_msg :: "nat \<Rightarrow> reader \<Rightarrow> (exn + json) \<times> reader" where
  "read_msg lim r =
     (case readline r of
        (Inl e, r') \<Rightarrow>
          if is_TimeoutError e \<or> is_ConnectionError e \<or> is_OSError e then (Inr JNull, r')
          else (Inl e, r')
      | (Inr line, r') \<Rightarrow> (decode_line lim line, r'))"

section \<open>net.py: the server\<close>

text \<open>An \<open>asyncio.StreamWriter\<close>: what was written to it, and the errors its \<open>write\<close>,
  \<open>drain\<close> and \<open>close\<close> raise, if any.\<close>

record writer =
  write_fault :: "os_error option"
  drain_fault :: "os_error option"
  wclose_fault :: "os_error option"
  written :: "bytes list"
  wclosed :: bool

definition writer_write :: "writer \<Rightarrow> bytes \<Rightarrow> exn + writer" where
  "writer_write w data =
     (case write_fault w of
        Some k \<Rightarrow> Inl (OSError k)
      | None \<Rightarrow> Inr (w\<lparr>written := written w @ [data]\<rparr>))"

definition writer_drain :: "writer \<Rightarrow> exn + writer" where
  "writer_drain w = (case drain_fault w of Some k \<Rightarrow> Inl (OSError k) | None \<Rightarrow> Inr w)"

definition writer_close :: "writer \<Rightarrow> exn + writer" where
  "writer_close w =
     (case wclose_fault w of Some k \<Rightarrow> Inl (OSError k) | None \<Rightarrow> Inr (w\<lparr>wclosed := True\<rparr>))"

text \<open>
  \<open>JukeboxServer\<close>: the registry \<open>_clients\<close>, a \<open>dict\<close> from tasks (numbered) to writers in
  insertion order, whether \<open>on_add\<close> is set, and the entries it has been called with.
\<close>

record server =
  clients :: "(nat \<times> writer) list"
  on_add :: bool
  on_add_calls :: "json list"

definition clients_pop :: "(nat \<times> writer) list \<Rightarrow> nat \<Rightarrow> (nat \<times> writer) list" where
  "clients_pop cs t = filter (\<lambda>c. fst c \<noteq> t) cs"

fun clients_set :: "(nat \<times> writer) list \<Rightarrow> nat \<Rightarrow> writer \<Rightarrow> (nat \<times> writer) list" where
  "clients_set [] t w = [(t, w)]"
| "clients_set ((t', w') # cs) t w =
     (if t' = t then (t, w) # cs else (t', w') # clients_set cs t w)"

definition ack_msg :: "json \<Rightarrow> json" where
  "ack_msg title = JObj [(ustr ''type'', JStr (ustr ''ack'')), (ustr ''title'', title)]"

definition send_ack :: "writer \<Rightarrow> (ustring \<times> json) list \<Rightarrow> exn + writer" where
  "send_ack w entry =
     (case (case encode_msg (ack_msg (dict_get entry (ustr ''title'') (JStr (ustr ''?'')))) of
              Inl e \<Rightarrow> Inl e
            | Inr data \<Rightarrow> writer_write w data) of
        Inr w' \<Rightarrow> Inr w'
      | Inl e \<Rightarrow> if is_ConnectionError e \<or> is_OSError e then Inr w else Inl e)"

text \<open>\<open>_process\<close>. \<open>msg.get\<close> on anything but a \<open>dict\<close> raises \<open>AttributeError\<close>.\<close>

definition process_msg :: "server \<Rightarrow> json \<Rightarrow> writer \<Rightarrow> exn + (server \<times> writer)" where
  "process_msg srv msg w =
     (case msg of
        JObj kvs \<Rightarrow>
          if dict_get kvs (ustr ''type'') JNull = JStr (ustr ''add'')
             \<and> is_dict (dict_get kvs (ustr ''entry'') JNull)
          then
            (case dict_get kvs (ustr ''entry'') JNull of
               JObj entry \<Rightarrow>
                 if dict_has entry (ustr ''id'') \<and> dict_has entry (ustr ''title'') then
                   (let srv' = (if on_add srv
                                then srv\<lparr>on_add_calls := on_add_calls srv @ [JObj entry]\<rparr>
                                else srv)
                    in case send_ack w entry of
                         Inl e \<Rightarrow> Inl e
                       | Inr w' \<Rightarrow> Inr (srv', w'))
                 else Inr (srv, w)
             | _ \<Rightarrow> Inr (srv, w))
          else Inr (srv, w)
      | _ \<Rightarrow> Inl AttributeError)"

lemma read_msg_rest: "snd (read_msg lim (ev # r)) = r"
  by (cases ev) (simp_all add: read_msg_def split: sum.splits)

lemma read_msg_shorter:
  "(Inr msg, r') = read_msg lim r \<Longrightarrow> msg \<noteq> JNull \<Longrightarrow> length r' < length r"
proof -
  assume a: "(Inr msg, r') = read_msg lim r" and b: "msg \<noteq> JNull"
  have "r \<noteq> []"
    using a b by (auto simp: read_msg_def decode_line_def)
  then obtain ev r0 where r: "r = ev # r0" by (cases r) auto
  have "r' = snd (read_msg lim r)" using a by (metis snd_conv)
  then show ?thesis using r by (simp add: read_msg_rest)
qed

text \<open>The \<open>while True\<close> loop of \<open>_handle_client\<close>.\<close>

function handle_loop :: "nat \<Rightarrow> server \<Rightarrow> reader \<Rightarrow> writer \<Rightarrow> exn + (server \<times> writer)" where
  "handle_loop lim srv r w =
     (case read_msg lim r of
        (Inl e, r') \<Rightarrow> Inl e
      | (Inr msg, r') \<Rightarrow>
          if msg = JNull then Inr (srv, w)
          else
            (case process_msg srv msg w of
               Inl e \<Rightarrow> Inl e
             | Inr (srv', w') \<Rightarrow> handle_loop lim srv' r' w'))"
  by pat_completeness auto
termination
proof (relation "measure (\<lambda>(lim, srv, r, w). length r)", goal_cases)
  case 1
  show ?case by simp
next
  case 2
  then show ?case
    by (auto dest: read_msg_shorter)
qed

declare handle_loop.simps [simp del]

text \<open>
  \<open>_handle_client\<close>: register, loop, and in the \<open>finally\<close> clause unregister and close.
  The result is the exception that leaves the method, if any, and the server after the
  \<open>finally\<close> clause when none does.
\<close>

definition handle_client :: "nat \<Rightarrow> server \<Rightarrow> nat \<Rightarrow> reader \<Rightarrow> writer \<Rightarrow> exn + server" where
  "handle_client lim srv task r w =
     (case handle_loop lim (srv\<lparr>clients := clients_set (clients srv) task w\<rparr>) r w of
        Inr (srv', w') \<Rightarrow> Inr (srv'\<lparr>clients := clients_pop (clients srv') task\<rparr>)
      | Inl e \<Rightarrow> if is_ConnectionError e
                 then Inr (srv\<lparr>clients := clients_pop (clients srv) task\<rparr>)
                 else Inl e)"

text \<open>The first loop of \<open>broadcast\<close>: the registry after the writes, and \<open>dead\<close>.\<close>

fun write_all :: "bytes \<Rightarrow> (nat \<times> writer) list \<Rightarrow> exn + ((nat \<times> writer) list \<times> nat list)" where
  "write_all data [] = Inr ([], [])"
| "write_all data ((t, w) # cs) =
     (case writer_write w data of
        Inr w' \<Rightarrow>
          (case write_all data cs of
             Inl e \<Rightarrow> Inl e
           | Inr (cs', dead) \<Rightarrow> Inr ((t, w') # cs', dead))
      | Inl e \<Rightarrow>
          if is_ConnectionError e \<or> is_OSError e then
            (case write_all data cs of
               Inl e' \<Rightarrow> Inl e'
             | Inr (cs', dead) \<Rightarrow> Inr ((t, w) # cs', t # dead))
          else Inl e)"

fun pop_all :: "nat list \<Rightarrow> (nat \<times> writer) list \<Rightarrow> (nat \<times> writer) list" where
  "pop_all [] cs = cs"
| "pop_all (t # ts) cs = pop_all ts (clients_pop cs t)"

definition broadcast :: "server \<Rightarrow> json \<Rightarrow> exn + server" where
  "broadcast srv msg =
     (if clients srv = [] then Inr srv
      else
        (case encode_msg msg of
           Inl e \<Rightarrow> Inl e
         | Inr data \<Rightarrow>
             (case write_all data (clients srv) of
                Inl e \<Rightarrow> Inl e
              | Inr (cs, dead) \<Rightarrow> Inr (srv\<lparr>clients := pop_all dead cs\<rparr>))))"

definition client_count :: "server \<Rightarrow> nat" where
  "client_count srv = length (clients srv)"

section \<open>net.py: the client\<close>

record client =
  creader :: "reader option"
  cwriter :: "writer option"
  connected :: bool
  on_sync :: bool
  on_sync_calls :: "json list"

definition hello_msg :: json where
  "hello_msg = JObj [(ustr ''type'', JStr (ustr ''hello''))]"

definition add_msg :: "json \<Rightarrow> json" where
  "add_msg entry = JObj [(ustr ''type'', JStr (ustr ''add'')), (ustr ''entry'', entry)]"

text \<open>\<open>write\<close> then \<open>drain\<close> of one encoded message.\<close>

definition send_frame :: "writer \<Rightarrow> json \<Rightarrow> exn + writer" where
  "send_frame w msg =
     (case encode_msg msg of
        Inl e \<Rightarrow> Inl e
      | Inr data \<Rightarrow> (case writer_write w data of Inl e \<Rightarrow> Inl e | Inr w' \<Rightarrow> writer_drain w'))"

text \<open>\<open>connect\<close>, given what \<open>asyncio.wait_for(asyncio.open_connection(...), 5.0)\<close> gives:
  a reader and a writer, or an error (\<open>TimeoutError\<close> after five seconds).\<close>

definition connect :: "client \<Rightarrow> os_error + (reader \<times> writer) \<Rightarrow> exn + (bool \<times> client)" where
  "connect c opened =
     (case opened of
        Inl k \<Rightarrow>
          if is_OSError (OSError k) \<or> is_TimeoutError (OSError k) then Inr (False, c)
          else Inl (OSError k)
      | Inr (r, w) \<Rightarrow>
          (let c1 = c\<lparr>creader := Some r, cwriter := Some w, connected := True\<rparr>
           in case send_frame w hello_msg of
                Inr w' \<Rightarrow> Inr (True, c1\<lparr>cwriter := Some w'\<rparr>)
              | Inl e \<Rightarrow> if is_OSError e \<or> is_TimeoutError e then Inr (False, c1) else Inl e))"

function listen :: "nat \<Rightarrow> client \<Rightarrow> exn + client" where
  "listen lim c =
     (case creader c of
        None \<Rightarrow> Inr c
      | Some r \<Rightarrow>
          if \<not> connected c then Inr c
          else
            (case read_msg lim r of
               (Inl e, r') \<Rightarrow> Inl e
             | (Inr msg, r') \<Rightarrow>
                 if msg = JNull then Inr (c\<lparr>creader := Some r', connected := False\<rparr>)
                 else
                   (case msg of
                      JObj kvs \<Rightarrow>
                        listen lim
                          (if dict_get kvs (ustr ''type'') JNull = JStr (ustr ''sync'') \<and> on_sync c
                           then c\<lparr>creader := Some r', on_sync_calls := on_sync_calls c @ [msg]\<rparr>
                           else c\<lparr>creader := Some r'\<rparr>)
                    | _ \<Rightarrow> Inl AttributeError)))"
  by pat_completeness auto
termination
proof (relation "measure (\<lambda>(lim, c). case creader c of None \<Rightarrow> 0 | Some r \<Rightarrow> length r)",
    goal_cases)
  case 1
  show ?case by simp
next
  case 2
  then show ?case
    by (auto dest: read_msg_shorter)
qed

declare listen.simps [simp del]

definition send_add :: "client \<Rightarrow> json \<Rightarrow> exn + client" where
  "send_add c entry =
     (case cwriter c of
        None \<Rightarrow> Inr c
      | Some w \<Rightarrow>
          if \<not> connected c then Inr c
          else
            (case send_frame w (add_msg entry) of
               Inr w' \<Rightarrow> Inr (c\<lparr>cwriter := Some w'\<rparr>)
             | Inl e \<Rightarrow> if is_ConnectionError e \<or> is_OSError e
                        then Inr (c\<lparr>connected := False\<rparr>) else Inl e))"

section \<open>player.py: the mpv controller\<close>

text \<open>The child process behind a \<open>subprocess.Popen\<close> handle: whether \<open>poll()\<close> still
  returns \<open>None\<close>, and whether it exits within the three seconds \<open>stop\<close> grants it after
  \<open>terminate()\<close>.\<close>

record process =
  alive :: bool
  exits_on_term :: bool

text \<open>What the control socket does next: one entry per \<open>recv(4096)\<close> call, a chunk of
  bytes (empty when the engine has closed the socket) or an error (\<open>TimeoutError\<close>, which is
  \<open>socket.timeout\<close>, when nothing arrives within 0.2 s). An exhausted list means that
  nothing arrives any more. \<open>sent\<close> holds the requests sent, as the values given to
  \<open>json.dumps\<close>.\<close>

datatype recv_event = Chunk bytes | RecvFail os_error

record mpv_sock =
  close_fault :: "os_error option"
  send_fault :: "os_error option"
  incoming :: "recv_event list"
  sent :: "json list"

text \<open>\<open>MpvPlayer\<close>: the fields \<open>_proc\<close> and \<open>_sock\<close>, and the part of the world the methods
  touch: whether \<open>_socket_path\<close> exists, whether \<open>os.unlink\<close> on it fails, and how many
  times \<open>time.sleep(0.1)\<close> has been called.\<close>

record player =
  proc :: "process option"
  sock :: "mpv_sock option"
  path_exists :: bool
  unlink_fault :: "os_error option"
  slept :: nat

definition is_running :: "player \<Rightarrow> bool" where
  "is_running s = (case proc s of None \<Rightarrow> False | Some p \<Rightarrow> alive p)"

definition proc_terminate :: "process \<Rightarrow> process" where
  "proc_terminate p = p"

definition proc_wait :: "process \<Rightarrow> exn + process" where
  "proc_wait p = (if alive p \<and> \<not> exits_on_term p then Inl TimeoutExpired
                  else Inr (p\<lparr>alive := False\<rparr>))"

definition proc_kill :: "process \<Rightarrow> process" where
  "proc_kill p = p\<lparr>alive := False\<rparr>"

definition sock_close :: "mpv_sock \<Rightarrow> exn + unit" where
  "sock_close k = (case close_fault k of Some e \<Rightarrow> Inl (OSError e) | None \<Rightarrow> Inr ())"

definition os_unlink :: "player \<Rightarrow> exn + player" where
  "os_unlink s = (case unlink_fault s of Some e \<Rightarrow> Inl (OSError e)
                  | None \<Rightarrow> Inr (s\<lparr>path_exists := False\<rparr>))"

text \<open>The three blocks of \<open>stop\<close>, in source order. Each returns the exception that leaves
  its \<open>try\<close>, if any.\<close>

definition stop_proc :: "player \<Rightarrow> exn + player" where
  "stop_proc s =
     (case proc s of
        None \<Rightarrow> Inr (s\<lparr>proc := None\<rparr>)
      | Some p \<Rightarrow>
          if alive p then
            (case proc_wait (proc_terminate p) of
               Inr p' \<Rightarrow> Inr (s\<lparr>proc := None\<rparr>)
             | Inl e \<Rightarrow> if e = TimeoutExpired
                        then (let p' = proc_kill p in Inr (s\<lparr>proc := None\<rparr>))
                        else Inl e)
          else Inr (s\<lparr>proc := None\<rparr>))"

definition stop_sock :: "player \<Rightarrow> exn + player" where
  "stop_sock s =
     (case sock s of
        None \<Rightarrow> Inr s
      | Some k \<Rightarrow>
          (case sock_close k of
             Inr u \<Rightarrow> Inr (s\<lparr>sock := None\<rparr>)
           | Inl e \<Rightarrow> if is_OSError e then Inr (s\<lparr>sock := None\<rparr>) else Inl e))"

definition stop_unlink :: "player \<Rightarrow> exn + player" where
  "stop_unlink s =
     (if path_exists s then
        (case os_unlink s of
           Inr s' \<Rightarrow> Inr s'
         | Inl e \<Rightarrow> if is_OSError e then Inr s else Inl e)
      else Inr s)"

definition stop :: "player \<Rightarrow> exn + player" where
  "stop s =
     (case stop_proc s of
        Inl e \<Rightarrow> Inl e
      | Inr s1 \<Rightarrow> (case stop_sock s1 of Inl e \<Rightarrow> Inl e | Inr s2 \<Rightarrow> stop_unlink s2))"

text \<open>What \<open>play\<close> meets: the outcome of \<open>subprocess.Popen\<close>, after how many sleeps the
  engine has created its socket (never, when \<open>None\<close>), and the outcome of connecting to it.\<close>

record play_env =
  spawn :: "os_error + process"
  appears_after :: "nat option"
  connect_result :: "os_error + mpv_sock"

definition exists_at :: "player \<Rightarrow> play_env \<Rightarrow> nat \<Rightarrow> bool" where
  "exists_at s env i =
     (path_exists s \<or> (case appears_after env of None \<Rightarrow> False | Some k \<Rightarrow> k \<le> i))"

text \<open>\<open>for _ in range(30): if os.path.exists(path): break; time.sleep(0.1)\<close>, with \<open>n\<close>
  iterations left and \<open>i\<close> sleeps done in this loop. The result is \<open>False\<close> on the
  \<open>else\<close> branch of the loop.\<close>

fun poll_socket :: "nat \<Rightarrow> nat \<Rightarrow> player \<Rightarrow> play_env \<Rightarrow> bool \<times> player" where
  "poll_socket 0 i s env = (False, s)"
| "poll_socket (Suc n) i s env =
     (if exists_at s env i then (True, s\<lparr>path_exists := True\<rparr>)
      else poll_socket n (Suc i) (s\<lparr>slept := Suc (slept s)\<rparr>) env)"

definition connect_sock :: "player \<Rightarrow> play_env \<Rightarrow> exn + (bool \<times> player)" where
  "connect_sock s env =
     (case connect_result env of
        Inr k \<Rightarrow> Inr (True, s\<lparr>sock := Some k\<rparr>)
      | Inl k \<Rightarrow> if is_OSError (OSError k) then Inr (False, s\<lparr>sock := None\<rparr>)
                 else Inl (OSError k))"

definition play :: "player \<Rightarrow> play_env \<Rightarrow> exn + (bool \<times> player)" where
  "play s env =
     (case stop s of
        Inl e \<Rightarrow> Inl e
      | Inr s1 \<Rightarrow>
          (case spawn env of
             Inl k \<Rightarrow> if k = FileNotFoundError then Inr (False, s1) else Inl (OSError k)
           | Inr p \<Rightarrow>
               (case poll_socket 30 0 (s1\<lparr>proc := Some p\<rparr>) env of
                  (found, s2) \<Rightarrow> if found then connect_sock s2 env else Inr (False, s2))))"

subsection \<open>Commands and properties\<close>

text \<open>\<open>buf.split(b"\n", 1)\<close> when \<open>b"\n" in buf\<close>.\<close>

fun split_line :: "bytes \<Rightarrow> (bytes \<times> bytes) option" where
  "split_line [] = None"
| "split_line (c # s) =
     (if c = CHR ''\<newline>'' then Some ([], s)
      else (case split_line s of None \<Rightarrow> None | Some (l, r) \<Rightarrow> Some (c # l, r)))"

lemma split_line_shorter: "split_line buf = Some (l, r) \<Longrightarrow> length r < length buf"
  by (induction buf arbitrary: l) (auto split: if_splits option.splits)

text \<open>\<open>p in s\<close> for two \<open>str\<close>, and \<open>"event" in data\<close>: a key of a \<open>dict\<close>, an element of a
  \<open>list\<close>, a substring of a \<open>str\<close>, and \<open>TypeError\<close> for anything else.\<close>

fun str_contains :: "ustring \<Rightarrow> ustring \<Rightarrow> bool" where
  "str_contains p [] = (p = [])"
| "str_contains p (c # s) = (strip_prefix p (c # s) \<noteq> None \<or> str_contains p s)"

definition has_event :: "json \<Rightarrow> exn + bool" where
  "has_event data =
     (case data of
        JObj kvs \<Rightarrow> Inr (dict_has kvs (ustr ''event''))
      | JArr xs \<Rightarrow> Inr (JStr (ustr ''event'') \<in> set xs)
      | JStr s \<Rightarrow> Inr (str_contains (ustr ''event'') s)
      | _ \<Rightarrow> Inl TypeError)"

text \<open>The inner loop of \<open>_command\<close>, \<open>while b"\n" in buf\<close>: the answer or the exception that
  ends it, if any, and the buffer left.\<close>

function drain_buf :: "nat \<Rightarrow> bytes \<Rightarrow> (exn + json) option \<times> bytes" where
  "drain_buf lim buf =
     (case split_line buf of
        None \<Rightarrow> (None, buf)
      | Some (line, rest) \<Rightarrow>
          (case (case bytes_decode line of Inl e \<Rightarrow> Inl e | Inr t \<Rightarrow> json_loads lim t) of
             Inl e \<Rightarrow> (Some (Inl e), rest)
           | Inr data \<Rightarrow>
               (case has_event data of
                  Inl e \<Rightarrow> (Some (Inl e), rest)
                | Inr ev \<Rightarrow> if ev then drain_buf lim rest else (Some (Inr data), rest))))"
  by pat_completeness auto
termination
  by (relation "measure (\<lambda>(lim, buf). length buf)") (auto dest: split_line_shorter)

declare drain_buf.simps [simp del]

text \<open>The outer loop, \<open>while True\<close>, around \<open>recv\<close>: what \<open>_command\<close> returns or raises from
  inside its inner \<open>try\<close>, and the events left.\<close>

fun recv_loop :: "nat \<Rightarrow> bytes \<Rightarrow> recv_event list \<Rightarrow> (exn + json) \<times> recv_event list" where
  "recv_loop lim buf [] = (Inr JNull, [])"
| "recv_loop lim buf (RecvFail k # evs) =
     (if k = TimeoutError then (Inr JNull, evs) else (Inl (OSError k), evs))"
| "recv_loop lim buf (Chunk c # evs) =
     (if c = [] then (Inr JNull, evs)
      else
        (case drain_buf lim (buf @ c) of
           (Some res, buf') \<Rightarrow> (res, evs)
         | (None, buf') \<Rightarrow> recv_loop lim buf' evs))"

text \<open>\<open>_command\<close>, the lock left out: one call at a time.\<close>

definition command :: "nat \<Rightarrow> player \<Rightarrow> json list \<Rightarrow> (exn + json) \<times> player" where
  "command lim s args =
     (case sock s of
        None \<Rightarrow> (Inr JNull, s)
      | Some k \<Rightarrow>
          (case send_fault k of
             Some e \<Rightarrow> (Inr JNull, s\<lparr>sock := None\<rparr>)
           | None \<Rightarrow>
               (case recv_loop lim [] (incoming k) of
                  (Inr v, evs) \<Rightarrow>
                    (Inr v, s\<lparr>sock := Some (k\<lparr>sent := sent k @ [JObj [(ustr ''command'', JArr args)]],
                                               incoming := evs\<rparr>)\<rparr>)
                | (Inl e, evs) \<Rightarrow>
                    if is_OSError e then (Inr JNull, s\<lparr>sock := None\<rparr>)
                    else (Inl e, s\<lparr>sock := Some (k\<lparr>sent := sent k
                                                        @ [JObj [(ustr ''command'', JArr args)]],
                                                      incoming := evs\<rparr>)\<rparr>))))"

definition get_property :: "nat \<Rightarrow> player \<Rightarrow> ustring \<Rightarrow> (exn + json) \<times> player" where
  "get_property lim s name =
     (case command lim s [JStr (ustr ''get_property''), JStr name] of
        (Inl e, s') \<Rightarrow> (Inl e, s')
      | (Inr result, s') \<Rightarrow>
          if truthy result then
            (case result of
               JObj kvs \<Rightarrow>
                 if dict_get kvs (ustr ''error'') JNull = JStr (ustr ''success'')
                 then (Inr (dict_get kvs (ustr ''data'') JNull), s')
                 else (Inr JNull, s')
             | _ \<Rightarrow> (Inl AttributeError, s'))
          else (Inr JNull, s'))"

text \<open>\<open>x or default\<close>.\<close>

definition py_or :: "json \<Rightarrow> json \<Rightarrow> json" where
  "py_or x dflt = (if truthy x then x else dflt)"

definition property_or :: "nat \<Rightarrow> player \<Rightarrow> ustring \<Rightarrow> json \<Rightarrow> (exn + json) \<times> player" where
  "property_or lim s name dflt =
     (case get_property lim s name of
        (Inl e, s') \<Rightarrow> (Inl e, s')
      | (Inr v, s') \<Rightarrow> (Inr (py_or v dflt), s'))"

definition position :: "nat \<Rightarrow> player \<Rightarrow> (exn + json) \<times> player" where
  "position lim s = property_or lim s (ustr ''playback-time'') (JFloat (Finite False 0 [0] None))"

definition duration :: "nat \<Rightarrow> player \<Rightarrow> (exn + json) \<times> player" where
  "duration lim s = property_or lim s (ustr ''duration'') (JFloat (Finite False 0 [0] None))"

definition paused :: "nat \<Rightarrow> player \<Rightarrow> (exn + json) \<times> player" where
  "paused lim s = property_or lim s (ustr ''pause'') (JBool False)"

definition volume :: "nat \<Rightarrow> player \<Rightarrow> (exn + json) \<times> player" where
  "volume lim s = property_or lim s (ustr ''volume'') (JFloat (Finite False 100 [0] None))"

section \<open>Notions used in the statements\<close>

definition ascii :: "ustring \<Rightarrow> bool" where
  "ascii s = list_all (\<lambda>c. c < 128) s"

text \<open>The bytes of the frame of a message: its compact JSON text and a newline, each
  character one byte.\<close>

definition framed :: "json \<Rightarrow> bytes" where
  "framed msg = map char_of (json_dumps msg @ [10])"

text \<open>The registry after \<open>data\<close> has gone to every writer that takes it, in the old
  order, without the entries whose writer raises.\<close>

definition delivered :: "bytes \<Rightarrow> (nat \<times> writer) list \<Rightarrow> (nat \<times> writer) list" where
  "delivered data cs =
     map (\<lambda>c. (fst c, (snd c)\<lparr>written := written (snd c) @ [data]\<rparr>))
       (filter (\<lambda>c. write_fault (snd c) = None) cs)"

text \<open>
  What may follow a number in a text for the number to end there; the two optional parts
  of a float's literal; and the values for which the round trip is stated: a \<open>str\<close> holds
  Unicode scalar values (no surrogates, which \<open>json.loads\<close> would pair up), an \<open>int\<close> has
  at most \<open>int_max_str_digits\<close> digits, a float is a number with a fraction or an exponent
  or an infinity (\<open>NaN\<close> is not equal to itself in Python), the keys of a \<open>dict\<close> are
  distinct.
\<close>

definition num_end :: "ustring \<Rightarrow> bool" where
  "num_end rest = (case rest of [] \<Rightarrow> True
                   | c # r \<Rightarrow> \<not> is_digit c \<and> c \<noteq> 46 \<and> c \<noteq> 101 \<and> c \<noteq> 69)"

fun wf_float :: "pyfloat \<Rightarrow> bool" where
  "wf_float (Finite neg ip frac ex) =
     (list_all (\<lambda>d. d < 10) frac
      \<and> (case ex of None \<Rightarrow> frac \<noteq> []
          | Some (eneg, ds) \<Rightarrow> ds \<noteq> [] \<and> list_all (\<lambda>d. d < 10) ds))"
| "wf_float NaN = False"
| "wf_float Infinity = True"
| "wf_float NegInfinity = True"

definition exp_repr :: "(bool \<times> nat list) option \<Rightarrow> ustring" where
  "exp_repr ex = (case ex of None \<Rightarrow> []
                  | Some (eneg, ds) \<Rightarrow> 101 # (if eneg then 45 else 43) # digit_chars ds)"

definition frac_repr :: "nat list \<Rightarrow> ustring" where
  "frac_repr frac = (if frac = [] then [] else 46 # digit_chars frac)"

definition wf_char :: "nat \<Rightarrow> bool" where
  "wf_char c = (c < 55296 \<or> (57343 < c \<and> c < 1114112))"

fun wf_json :: "json \<Rightarrow> bool"
  and wf_items :: "json list \<Rightarrow> bool"
  and wf_pairs :: "(ustring \<times> json) list \<Rightarrow> bool" where
  "wf_json JNull = True"
| "wf_json (JBool b) = True"
| "wf_json (JInt i) = (length (dec_digits (nat \<bar>i\<bar>)) \<le> int_max_str_digits)"
| "wf_json (JFloat f) = wf_float f"
| "wf_json (JStr s) = list_all wf_char s"
| "wf_json (JArr xs) = wf_items xs"
| "wf_json (JObj kvs) = (distinct (map fst kvs) \<and> wf_pairs kvs)"
| "wf_items [] = True"
| "wf_items (x # xs) = (wf_json x \<and> wf_items xs)"
| "wf_pairs [] = True"
| "wf_pairs ((k, v) # kvs) = (list_all wf_char k \<and> wf_json v \<and> wf_pairs kvs)"

text \<open>How deep arrays and objects are nested in a value.\<close>

fun json_depth :: "json \<Rightarrow> nat"
  and items_depth :: "json list \<Rightarrow> nat"
  and pairs_depth :: "(ustring \<times> json) list \<Rightarrow> nat" where
  "json_depth (JArr xs) = Suc (items_depth xs)"
| "json_depth (JObj kvs) = Suc (pairs_depth kvs)"
| "json_depth v = 0"
| "items_depth [] = 0"
| "items_depth (x # xs) = max (json_depth x) (items_depth xs)"
| "pairs_depth [] = 0"
| "pairs_depth ((k, v) # kvs) = max (json_depth v) (pairs_depth kvs)"

definition value_start :: "nat \<Rightarrow> bool" where
  "value_start c = (\<not> is_ws c \<and> c \<noteq> 93 \<and> c \<noteq> 125)"

text \<open>The \<open>sync\<close> message as \<open>_tick\<close> builds it.\<close>

definition sync_msg :: "json \<Rightarrow> json \<Rightarrow> json \<Rightarrow> json \<Rightarrow> json \<Rightarrow> json" where
  "sync_msg queue track pos dur psd =
     JObj [(ustr ''type'', JStr (ustr ''sync'')), (ustr ''queue'', queue), (ustr ''track'', track),
           (ustr ''position'', pos), (ustr ''duration'', dur), (ustr ''paused'', psd)]"

text \<open>A writer in working order, a fresh server and a fresh client.\<close>

definition good_writer :: writer where
  "good_writer = \<lparr>write_fault = None, drain_fault = None, wclose_fault = None,
                   written = [], wclosed = False\<rparr>"

definition new_server :: server where
  "new_server = \<lparr>clients = [], on_add = True, on_add_calls = []\<rparr>"

definition new_client :: client where
  "new_client = \<lparr>creader = None, cwriter = None, connected = False, on_sync = True,
                  on_sync_calls = []\<rparr>"

text \<open>A controller as \<open>__init__\<close> leaves it, and a socket that answers nothing.\<close>

definition new_player :: player where
  "new_player = \<lparr>proc = None, sock = None, path_exists = False, unlink_fault = None, slept = 0\<rparr>"

definition silent_sock :: mpv_sock where
  "silent_sock = \<lparr>close_fault = None, send_fault = None, incoming = [], sent = []\<rparr>"

text \<open>A controller connected to an engine that sends \<open>reply\<close> and nothing more.\<close>

definition engine_says :: "bytes \<Rightarrow> player" where
  "engine_says reply = new_player\<lparr>sock := Some (silent_sock\<lparr>incoming := [Chunk reply]\<rparr>)\<rparr>"

section \<open>The encoder is total\<close>

lemma ascii_simps [simp]:
  "ascii []" "ascii (c # s) = (c < 128 \<and> ascii s)" "ascii (s @ t) = (ascii s \<and> ascii t)"
  by (auto simp: ascii_def)

lemma ascii_dec_digits [simp]: "ascii (dec_digits n)"
proof (induction n rule: dec_digits.induct)
  case (1 n)
  then show ?case
    by (subst dec_digits.simps) auto
qed

lemma ascii_digit_chars [simp]: "ascii (digit_chars ds)"
proof (induction ds)
  case Nil
  then show ?case by (simp add: digit_chars_def)
next
  case (Cons d ds)
  have "d mod 10 < 10" by simp
  then have "48 + d mod 10 < 128" by linarith
  with Cons show ?case by (simp add: digit_chars_def)
qed

lemma hex_digit_lt: "d < 16 \<Longrightarrow> hex_digit d < 128"
  by (simp add: hex_digit_def)

lemma hex_digit_mod_lt: "hex_digit (n mod 16) < 128"
  by (rule hex_digit_lt) simp

lemma ascii_hex4 [simp]: "ascii (hex4 n)"
  by (simp add: hex4_def hex_digit_mod_lt)

lemma ascii_escape_char [simp]: "ascii (escape_char c)"
  by (simp add: escape_char_def)

lemma ascii_dumps_str [simp]: "ascii (dumps_str s)"
  by (induction s) (auto simp: dumps_str_def)

lemma ascii_int_repr [simp]: "ascii (int_repr i)"
  by (simp add: int_repr_def)

lemma ascii_float_repr [simp]: "ascii (float_repr f)"
  by (cases f) (auto simp: ustr_def split: option.splits)

lemma ascii_json_dumps:
  "ascii (json_dumps v)" "ascii (dumps_items vs)" "ascii (dumps_pairs kvs)"
  by (induction v and vs and kvs rule: json_dumps_dumps_items_dumps_pairs.induct)
     (simp_all add: ustr_def)

lemma str_encode_ascii: "ascii s \<Longrightarrow> str_encode s = Inr (map char_of s)"
  by (induction s) (auto simp: utf8_encode_char_def)

lemma encode_msg_eq: "encode_msg msg = Inr (framed msg)"
  unfolding encode_msg_def framed_def by (rule str_encode_ascii) (simp add: ascii_json_dumps)

lemma write_all_eq:
  "write_all data cs =
     Inr (map (\<lambda>c. (fst c, if write_fault (snd c) = None
                           then (snd c)\<lparr>written := written (snd c) @ [data]\<rparr> else snd c)) cs,
          map fst (filter (\<lambda>c. write_fault (snd c) \<noteq> None) cs))"
  by (induction cs) (auto simp: writer_write_def split: option.splits)

lemma pop_all_eq: "pop_all dead cs = filter (\<lambda>c. fst c \<notin> set dead) cs"
  by (induction dead arbitrary: cs) (auto simp: clients_pop_def intro: filter_cong)

lemma dead_keys:
  assumes "distinct (map fst cs)" "c \<in> set cs"
  shows "(fst c \<in> set (map fst (filter (\<lambda>c. write_fault (snd c) \<noteq> None) cs)))
         = (write_fault (snd c) \<noteq> None)"
proof
  assume "fst c \<in> set (map fst (filter (\<lambda>c. write_fault (snd c) \<noteq> None) cs))"
  then obtain c' where c': "c' \<in> set cs" "write_fault (snd c') \<noteq> None" "fst c' = fst c"
    by auto
  have "inj_on fst (set cs)"
    using assms(1) by (simp add: distinct_map)
  with c' assms(2) have "c' = c"
    by (auto dest: inj_onD)
  with c' show "write_fault (snd c) \<noteq> None" by simp
next
  assume "write_fault (snd c) \<noteq> None"
  with assms(2) show "fst c \<in> set (map fst (filter (\<lambda>c. write_fault (snd c) \<noteq> None) cs))"
    by auto
qed

lemma filter_written:
  "(\<And>c. c \<in> set cs \<Longrightarrow> (fst c \<in> D) = (write_fault (snd c) \<noteq> None)) \<Longrightarrow>
   filter (\<lambda>c. fst c \<notin> D)
     (map (\<lambda>c. (fst c, if write_fault (snd c) = None
                     then (snd c)\<lparr>written := written (snd c) @ [data]\<rparr> else snd c)) cs)
   = delivered data cs"
  by (induction cs) (auto simp: delivered_def)

lemma prune_eq:
  assumes "distinct (map fst cs)"
  shows "pop_all (map fst (filter (\<lambda>c. write_fault (snd c) \<noteq> None) cs))
           (map (\<lambda>c. (fst c, if write_fault (snd c) = None
                           then (snd c)\<lparr>written := written (snd c) @ [data]\<rparr> else snd c)) cs)
         = delivered data cs"
  unfolding pop_all_eq
  by (rule filter_written) (rule dead_keys [OF assms])

lemma broadcast_eq:
  assumes "distinct (map fst (clients srv))"
  shows "broadcast srv msg = Inr (srv\<lparr>clients := delivered (framed msg) (clients srv)\<rparr>)"
proof (cases "clients srv = []")
  case True
  have "srv\<lparr>clients := []\<rparr> = srv"
    using True by (cases srv) simp
  moreover have "broadcast srv msg = Inr srv"
    unfolding broadcast_def using True by (rule if_P)
  moreover have "delivered (framed msg) (clients srv) = []"
    unfolding True delivered_def by simp
  ultimately show ?thesis by simp
next
  case False
  have "broadcast srv msg
        = Inr (srv\<lparr>clients :=
            pop_all (map fst (filter (\<lambda>c. write_fault (snd c) \<noteq> None) (clients srv)))
              (map (\<lambda>c. (fst c, if write_fault (snd c) = None
                     then (snd c)\<lparr>written := written (snd c) @ [framed msg]\<rparr> else snd c))
                 (clients srv))\<rparr>)"
    unfolding broadcast_def encode_msg_eq write_all_eq using False by simp
  then show ?thesis
    unfolding prune_eq [OF assms] .
qed

lemma length_delivered:
  "length (delivered data cs) = length cs - length (filter (\<lambda>c. write_fault (snd c) \<noteq> None) cs)"
proof -
  have "length cs = length (filter (\<lambda>c. write_fault (snd c) = None) cs)
                    + length (filter (\<lambda>c. \<not> write_fault (snd c) = None) cs)"
    by (rule sum_length_filter_compl [symmetric])
  then show ?thesis by (simp add: delivered_def)
qed


section \<open>The decoder reads back what the encoder wrote\<close>

lemma dec_digits_nonempty: "dec_digits n \<noteq> []"
  by (subst dec_digits.simps) simp

lemma dec_digits_all_digits: "list_all is_digit (dec_digits n)"
proof (induction n rule: dec_digits.induct)
  case (1 n)
  have "n mod 10 < 10" by simp
  then have "is_digit (48 + n mod 10)" unfolding is_digit_def by linarith
  moreover have "n < 10 \<Longrightarrow> is_digit (48 + n)" unfolding is_digit_def by linarith
  ultimately show ?case
    using 1 by (subst dec_digits.simps) auto
qed

lemma digits_val_snoc: "digits_val (ds @ [d]) = digits_val ds * 10 + (d - 48)"
  by (simp add: digits_val_def)

lemma digits_val_dec_digits: "digits_val (dec_digits n) = n"
proof (induction n rule: dec_digits.induct)
  case (1 n)
  show ?case
  proof (cases "n < 10")
    case True
    then show ?thesis by (subst dec_digits.simps) (simp add: digits_val_def)
  next
    case False
    then have "digits_val (dec_digits n) = digits_val (dec_digits (n div 10)) * 10 + n mod 10"
      by (subst dec_digits.simps) (simp add: digits_val_snoc)
    with 1 False show ?thesis by simp
  qed
qed

lemma hd_dec_digits: "hd (dec_digits n) = 48 \<longleftrightarrow> n = 0"
proof (induction n rule: dec_digits.induct)
  case (1 n)
  show ?case
  proof (cases "n < 10")
    case True
    then show ?thesis by (subst dec_digits.simps) simp
  next
    case False
    then have "hd (dec_digits n) = hd (dec_digits (n div 10))"
      by (subst dec_digits.simps) (simp add: dec_digits_nonempty)
    with 1 False show ?thesis by simp
  qed
qed

lemma takeWhile_no_digit:
  "rest = [] \<or> \<not> is_digit (hd rest) \<Longrightarrow>
   takeWhile is_digit rest = [] \<and> dropWhile is_digit rest = rest"
  by (cases rest) auto

lemma takeWhile_digits:
  "list_all is_digit ds \<Longrightarrow> (rest = [] \<or> \<not> is_digit (hd rest)) \<Longrightarrow>
   takeWhile is_digit (ds @ rest) = ds \<and> dropWhile is_digit (ds @ rest) = rest"
  by (induction ds) (auto simp: takeWhile_no_digit)

lemma scan_int_part_dec_digits:
  assumes "rest = [] \<or> \<not> is_digit (hd rest)"
  shows "scan_int_part (dec_digits n @ rest) = dec_digits n"
proof (cases "n = 0")
  case True
  then have "dec_digits n = [48]" by (subst dec_digits.simps) simp
  then show ?thesis by (simp add: scan_int_part_def)
next
  case False
  obtain c r where cr: "dec_digits n = c # r"
    using dec_digits_nonempty [of n] by (cases "dec_digits n") auto
  with False hd_dec_digits [of n] have "c \<noteq> 48" by simp
  moreover have "takeWhile is_digit (dec_digits n @ rest) = dec_digits n"
    using takeWhile_digits [OF dec_digits_all_digits assms] by simp
  ultimately show ?thesis using cr by (simp add: scan_int_part_def)
qed

lemma num_end_no_digit: "num_end rest \<Longrightarrow> rest = [] \<or> \<not> is_digit (hd rest)"
  by (cases rest) (auto simp: num_end_def)

lemma scan_frac_none: "num_end rest \<Longrightarrow> scan_frac rest = []"
  by (cases rest) (auto simp: scan_frac_def num_end_def)

lemma scan_exp_none: "num_end rest \<Longrightarrow> scan_exp rest = (None, 0)"
  by (cases rest) (auto simp: scan_exp_def num_end_def)

lemma match_number_nat:
  assumes "num_end rest" "length (dec_digits n) \<le> int_max_str_digits"
  shows "match_number (dec_digits n @ rest) = Some (Inr (JInt (int n), rest))"
proof -
  have ip: "scan_int_part (dec_digits n @ rest) = dec_digits n"
    using assms(1) by (intro scan_int_part_dec_digits num_end_no_digit)
  have nd: "is_digit (hd (dec_digits n @ rest))"
    using dec_digits_all_digits [of n] dec_digits_nonempty [of n]
    by (cases "dec_digits n") auto
  then have "hd (dec_digits n @ rest) \<noteq> 45" by (auto simp: is_digit_def)
  then show ?thesis
    using assms
    by (simp add: match_number_def ip dec_digits_nonempty scan_frac_none scan_exp_none
        digits_val_dec_digits Let_def)
qed

lemma match_number_neg:
  assumes "num_end rest" "length (dec_digits n) \<le> int_max_str_digits"
  shows "match_number (45 # dec_digits n @ rest)
         = Some (Inr (JInt (- int n), rest))"
proof -
  have ip: "scan_int_part (dec_digits n @ rest) = dec_digits n"
    using assms(1) by (intro scan_int_part_dec_digits num_end_no_digit)
  show ?thesis
    using assms
    by (simp add: match_number_def ip dec_digits_nonempty scan_frac_none scan_exp_none
        digits_val_dec_digits Let_def)
qed

lemma match_number_int_repr:
  assumes "num_end rest" "length (dec_digits (nat \<bar>i\<bar>)) \<le> int_max_str_digits"
  shows "match_number (int_repr i @ rest) = Some (Inr (JInt i, rest))"
proof (cases "i < 0")
  case True
  then have "nat \<bar>i\<bar> = nat (- i)" by simp
  with True show ?thesis
    using match_number_neg [OF assms(1), of "nat (- i)"] assms(2) by (simp add: int_repr_def)
next
  case False
  then have "nat \<bar>i\<bar> = nat i" by simp
  with False show ?thesis
    using match_number_nat [OF assms(1), of "nat i"] assms(2) by (simp add: int_repr_def)
qed

lemma float_repr_Finite:
  "float_repr (Finite neg ip frac ex)
   = (if neg then [45] else []) @ dec_digits ip @ frac_repr frac @ exp_repr ex"
  by (simp add: exp_repr_def frac_repr_def split: option.splits)

lemma digit_chars_digits: "list_all is_digit (digit_chars ds)"
proof (induction ds)
  case Nil
  then show ?case by (simp add: digit_chars_def)
next
  case (Cons d ds)
  have "d mod 10 < 10" by simp
  then have "is_digit (48 + d mod 10)" unfolding is_digit_def by linarith
  with Cons show ?case by (simp add: digit_chars_def)
qed

lemma digit_chars_inverse:
  "list_all (\<lambda>d. d < 10) ds \<Longrightarrow> map (\<lambda>c. c - 48) (digit_chars ds) = ds"
  by (induction ds) (auto simp: digit_chars_def)

lemma digit_chars_Nil: "digit_chars ds = [] \<longleftrightarrow> ds = []"
  by (simp add: digit_chars_def)

lemma length_digit_chars: "length (digit_chars ds) = length ds"
  by (simp add: digit_chars_def)

lemma exp_repr_no_digit:
  "num_end rest \<Longrightarrow> exp_repr ex @ rest = [] \<or> \<not> is_digit (hd (exp_repr ex @ rest))"
  by (cases rest) (auto simp: exp_repr_def num_end_def is_digit_def split: option.splits)

lemma frac_exp_no_digit:
  "num_end rest \<Longrightarrow>
   frac_repr frac @ exp_repr ex @ rest = [] \<or> \<not> is_digit (hd (frac_repr frac @ exp_repr ex @ rest))"
  using exp_repr_no_digit [of rest ex] by (auto simp: frac_repr_def is_digit_def)

lemma scan_frac_repr:
  assumes "num_end rest"
  shows "scan_frac (frac_repr frac @ exp_repr ex @ rest) = digit_chars frac"
proof (cases "frac = []")
  case True
  have "scan_frac (exp_repr ex @ rest) = []"
    using assms
    by (cases rest) (auto simp: scan_frac_def exp_repr_def num_end_def split: option.splits)
  with True show ?thesis by (simp add: frac_repr_def digit_chars_def)
next
  case False
  have "takeWhile is_digit (digit_chars frac @ exp_repr ex @ rest) = digit_chars frac"
    using takeWhile_digits [OF digit_chars_digits exp_repr_no_digit [OF assms]] by simp
  with False show ?thesis by (simp add: frac_repr_def scan_frac_def)
qed

lemma drop_frac_repr:
  "digit_chars frac \<noteq> [] \<Longrightarrow> drop (Suc (length (digit_chars frac))) (frac_repr frac @ t) = t"
  by (simp add: frac_repr_def digit_chars_Nil)

lemma frac_repr_empty: "digit_chars frac = [] \<Longrightarrow> frac_repr frac @ t = t"
  by (simp add: frac_repr_def digit_chars_Nil)

lemma drop_length_append: "drop (length a) (a @ b) = b"
  by simp

lemma scan_exp_repr:
  assumes "num_end rest" "case ex of None \<Rightarrow> True | Some (eneg, ds) \<Rightarrow> ds \<noteq> []"
  shows "scan_exp (exp_repr ex @ rest)
         = (map_option (\<lambda>(eneg, ds). (eneg, digit_chars ds)) ex, length (exp_repr ex))"
proof (cases ex)
  case None
  then show ?thesis using assms by (simp add: exp_repr_def scan_exp_none)
next
  case (Some p)
  obtain eneg ds where p: "p = (eneg, ds)" by (cases p)
  have tw: "takeWhile is_digit (digit_chars ds @ rest) = digit_chars ds"
    using takeWhile_digits [OF digit_chars_digits num_end_no_digit [OF assms(1)]] by simp
  have ne: "digit_chars ds \<noteq> []"
    using assms(2) Some p by (simp add: digit_chars_Nil)
  show ?thesis
    using Some p tw ne by (simp add: exp_repr_def scan_exp_def)
qed

lemma match_number_steps:
  assumes "s = (if neg then 45 # s1 else s1)" "neg \<or> s1 = [] \<or> hd s1 \<noteq> 45"
    and "ipd = scan_int_part s1" "ipd \<noteq> []" "s2 = drop (length ipd) s1"
    and "fr = scan_frac s2" "s3 = (if fr = [] then s2 else drop (1 + length fr) s2)"
    and "scan_exp s3 = (ex, n)" "s4 = drop n s3"
  shows "match_number s =
         (if fr = [] \<and> ex = None
          then (if int_max_str_digits < length ipd then Some (Inl ValueError)
                else Some (Inr (JInt (if neg then - int (digits_val ipd)
                                      else int (digits_val ipd)), s4)))
          else Some (Inr (JFloat (Finite neg (digits_val ipd) (map (\<lambda>c. c - 48) fr)
                       (map_option (\<lambda>(sg, ds). (sg, map (\<lambda>c. c - 48) ds)) ex)), s4)))"
proof -
  have neg: "(s \<noteq> [] \<and> hd s = 45) = neg"
    using assms(1,2) by auto
  have s1: "(if neg then tl s else s) = s1"
    using assms(1) by simp
  show ?thesis
    unfolding match_number_def neg s1 Let_def
      assms(3) [symmetric] assms(5) [symmetric] assms(6) [symmetric] assms(7) [symmetric]
      assms(8)
    using assms(4) assms(9) by simp
qed

lemma match_number_float:
  assumes "num_end rest" "wf_float (Finite neg ip frac ex)"
  shows "match_number (float_repr (Finite neg ip frac ex) @ rest)
         = Some (Inr (JFloat (Finite neg ip frac ex), rest))"
proof -
  let ?tail = "frac_repr frac @ exp_repr ex @ rest"
  let ?s1 = "dec_digits ip @ ?tail"
  have s: "float_repr (Finite neg ip frac ex) @ rest = (if neg then 45 # ?s1 else ?s1)"
    unfolding float_repr_Finite by simp
  have hd1: "neg \<or> ?s1 = [] \<or> hd ?s1 \<noteq> 45"
    using dec_digits_all_digits [of ip] dec_digits_nonempty [of ip]
    by (cases "dec_digits ip") (auto simp: is_digit_def)
  have ip: "scan_int_part ?s1 = dec_digits ip"
    by (rule scan_int_part_dec_digits) (rule frac_exp_no_digit [OF assms(1)])
  have d1: "drop (length (dec_digits ip)) ?s1 = ?tail"
    by simp
  have fr: "scan_frac ?tail = digit_chars frac"
    by (rule scan_frac_repr [OF assms(1)])
  have d2: "(if digit_chars frac = [] then ?tail
             else drop (1 + length (digit_chars frac)) ?tail) = exp_repr ex @ rest"
    by (simp add: frac_repr_def digit_chars_Nil)
  have exok: "case ex of None \<Rightarrow> True | Some (eneg, ds) \<Rightarrow> ds \<noteq> []"
    using assms(2) by (auto split: option.splits)
  have ex: "scan_exp (exp_repr ex @ rest)
            = (map_option (\<lambda>(eneg, ds). (eneg, digit_chars ds)) ex, length (exp_repr ex))"
    by (rule scan_exp_repr [OF assms(1) exok])
  have d3: "drop (length (exp_repr ex)) (exp_repr ex @ rest) = rest"
    by simp
  have isfloat: "\<not> (digit_chars frac = []
                    \<and> map_option (\<lambda>(eneg, ds). (eneg, digit_chars ds)) ex = None)"
    using assms(2) by (auto simp: digit_chars_Nil split: option.splits)
  have fracinv: "map (\<lambda>c. c - 48) (digit_chars frac) = frac"
    using assms(2) by (simp add: digit_chars_inverse)
  have exinv: "map_option (\<lambda>(sg, ds). (sg, map (\<lambda>c. c - 48) ds))
                 (map_option (\<lambda>(eneg, ds). (eneg, digit_chars ds)) ex) = ex"
    using assms(2) by (cases ex) (auto simp: digit_chars_inverse)
  show ?thesis
    unfolding match_number_steps [OF s hd1 ip [symmetric] dec_digits_nonempty d1 [symmetric]
        fr [symmetric] d2 [symmetric] ex d3 [symmetric]]
    using isfloat by (simp only: fracinv exinv digits_val_dec_digits if_False)
qed

lemma hex_val_hex_digit: "d < 16 \<Longrightarrow> hex_val (hex_digit d) = Some d"
  by (simp add: hex_val_def hex_digit_def)

lemma horner16:
  "A * 16 + r0 = n \<Longrightarrow> B * 16 + r1 = A \<Longrightarrow> C * 16 + r2 = B \<Longrightarrow> r3 = C \<Longrightarrow>
   r3 * 4096 + r2 * 256 + r1 * 16 + r0 = (n::nat)"
  by (auto simp: algebra_simps)

lemma hex4_value:
  assumes "(n::nat) < 65536"
  shows "n div 4096 mod 16 * 4096 + n div 256 mod 16 * 256 + n div 16 mod 16 * 16 + n mod 16 = n"
proof -
  have d2: "n div 256 = n div 16 div 16"
    by (simp add: div_mult2_eq)
  have d3: "n div 4096 = n div 16 div 16 div 16"
    by (simp add: div_mult2_eq)
  have "n div 16 < 4096"
    using assms by (intro less_mult_imp_div_less) simp
  then have "n div 16 div 16 < 256"
    by (intro less_mult_imp_div_less) simp
  then have "n div 16 div 16 div 16 < 16"
    by (intro less_mult_imp_div_less) simp
  then have top: "n div 16 div 16 div 16 mod 16 = n div 16 div 16 div 16"
    by (rule mod_less)
  show ?thesis
    unfolding d2 d3
    by (rule horner16 [OF div_mult_mod_eq div_mult_mod_eq div_mult_mod_eq top])
qed

lemma decode_uXXXX_hex4: "n < 65536 \<Longrightarrow> decode_uXXXX (hex4 n @ r) = Some n"
  using hex4_value [of n] by (simp add: hex4_def hex_val_hex_digit)

lemma hex4_shape: "\<exists>a b c d. hex4 n = [a, b, c, d]"
  by (simp add: hex4_def)

lemma scan_escape_short:
  "e \<noteq> 117 \<Longrightarrow> scan_escape (e # s) = map_option (\<lambda>ch. (ch, 1)) (backslash e)"
  by (simp add: scan_escape_def)

lemma scan_escape_u:
  "scan_escape (117 # s1) =
     (case decode_uXXXX s1 of
        None \<Rightarrow> None
      | Some uni \<Rightarrow>
          if 55296 \<le> uni \<and> uni \<le> 56319 \<and> take 2 (drop 4 s1) = [92, 117] then
            (case decode_uXXXX (drop 6 s1) of
               None \<Rightarrow> None
             | Some uni2 \<Rightarrow>
                 if 56320 \<le> uni2 \<and> uni2 \<le> 57343
                 then Some (65536 + ((uni - 55296) * 1024 + (uni2 - 56320)), 11)
                 else Some (uni, 5))
          else Some (uni, 5))"
  by (simp add: scan_escape_def)

lemma scan_escape_bmp:
  assumes "c < 65536" "\<not> (55296 \<le> c \<and> c \<le> 56319)"
  shows "scan_escape (117 # hex4 c @ s) = Some (c, 5)"
proof -
  have n: "\<not> (55296 \<le> c \<and> c \<le> 56319 \<and> take 2 (drop 4 (hex4 c @ s)) = [92, 117])"
    using assms(2) by blast
  show ?thesis
    unfolding scan_escape_u decode_uXXXX_hex4 [OF assms(1)] option.case if_not_P [OF n]
    by (rule refl)
qed

lemma surrogate_value:
  assumes "(v::nat) < 1048576"
  shows "v div 1024 mod 1024 * 1024 + v mod 1024 = v"
proof -
  have "v div 1024 < 1024"
    using assms by (intro less_mult_imp_div_less) simp
  then have "v div 1024 mod 1024 = v div 1024"
    by (rule mod_less)
  then show ?thesis
    by (simp only: div_mult_mod_eq)
qed

lemma scan_escape_pair:
  assumes "65536 \<le> c" "c < 1114112"
  shows "scan_escape (117 # hex4 (55296 + (c - 65536) div 1024 mod 1024)
                      @ 92 # 117 # hex4 (56320 + (c - 65536) mod 1024) @ s) = Some (c, 11)"
proof -
  define hi where "hi = 55296 + (c - 65536) div 1024 mod 1024"
  define lo where "lo = 56320 + (c - 65536) mod 1024"
  have m1: "(c - 65536) div 1024 mod 1024 < 1024" by (rule mod_less_divisor) simp
  have m2: "(c - 65536) mod 1024 < 1024" by (rule mod_less_divisor) simp
  have hi: "hi < 65536" "55296 \<le> hi \<and> hi \<le> 56319"
    using m1 unfolding hi_def by linarith+
  have lo: "lo < 65536" "56320 \<le> lo \<and> lo \<le> 57343"
    using m2 unfolding lo_def by linarith+
  obtain a b c' d where h4: "hex4 hi = [a, b, c', d]"
    using hex4_shape [of hi] by blast
  have dhi: "decode_uXXXX (hex4 hi @ 92 # 117 # hex4 lo @ s) = Some hi"
    by (rule decode_uXXXX_hex4 [OF hi(1)])
  have dlo: "decode_uXXXX (hex4 lo @ s) = Some lo"
    by (rule decode_uXXXX_hex4 [OF lo(1)])
  have t: "take 2 (drop 4 (hex4 hi @ 92 # 117 # hex4 lo @ s)) = [92, 117]"
    unfolding h4 by simp
  have d: "drop 6 (hex4 hi @ 92 # 117 # hex4 lo @ s) = hex4 lo @ s"
    unfolding h4 by simp
  have "c - 65536 < 1048576" using assms by linarith
  then have "(c - 65536) div 1024 mod 1024 * 1024 + (c - 65536) mod 1024 = c - 65536"
    by (rule surrogate_value)
  then have v: "65536 + ((hi - 55296) * 1024 + (lo - 56320)) = c"
    unfolding hi_def lo_def using assms(1) by simp
  have c1: "55296 \<le> hi \<and> hi \<le> 56319 \<and> take 2 (drop 4 (hex4 hi @ 92 # 117 # hex4 lo @ s)) = [92, 117]"
    using hi(2) t by blast
  have "scan_escape (117 # hex4 hi @ 92 # 117 # hex4 lo @ s) = Some (c, 11)"
    unfolding scan_escape_u dhi option.case if_P [OF c1] d dlo if_P [OF lo(2)] v
    by (rule refl)
  then show ?thesis unfolding hi_def lo_def .
qed

lemma scanstring_plain:
  "c \<noteq> 34 \<Longrightarrow> c \<noteq> 92 \<Longrightarrow> 32 \<le> c \<Longrightarrow>
   scanstring (c # s) = map_option (\<lambda>(t, r). (c # t, r)) (scanstring s)"
  by simp

lemma scanstring_escaped:
  "scan_escape s = Some (ch, n) \<Longrightarrow>
   scanstring (92 # s) = map_option (\<lambda>(t, r). (ch # t, r)) (scanstring (drop n s))"
  by simp

lemma scanstring_escape_char:
  assumes "wf_char c"
  shows "scanstring (escape_char c @ s) = map_option (\<lambda>(t, r). (c # t, r)) (scanstring s)"
proof -
  consider (short) "c = 92 \<or> c = 34 \<or> c = 8 \<or> c = 12 \<or> c = 10 \<or> c = 13 \<or> c = 9"
    | (plain) "c \<noteq> 92" "c \<noteq> 34" "32 \<le> c" "c \<le> 126"
    | (bmp) "c \<noteq> 8" "c \<noteq> 12" "c \<noteq> 10" "c \<noteq> 13" "c \<noteq> 9" "c < 32 \<or> 126 < c" "c < 65536"
    | (pair) "65536 \<le> c"
    by linarith
  then show ?thesis
  proof cases
    case short
    then show ?thesis
      by (auto simp: escape_char_def scan_escape_short backslash_def)
  next
    case plain
    then show ?thesis by (simp add: escape_char_def)
  next
    case bmp
    then have e: "escape_char c = 92 # 117 # hex4 c"
      by (auto simp: escape_char_def)
    have ns: "\<not> (55296 \<le> c \<and> c \<le> 56319)"
      using assms bmp unfolding wf_char_def by linarith
    obtain a b c' d where h4: "hex4 c = [a, b, c', d]"
      using hex4_shape [of c] by blast
    have dr: "drop 5 (117 # hex4 c @ s) = s"
      unfolding h4 by simp
    show ?thesis
      unfolding e append_Cons scanstring_escaped [OF scan_escape_bmp [OF bmp(7) ns]] dr
      by (rule refl)
  next
    case pair
    then have lt: "c < 1114112"
      using assms unfolding wf_char_def by linarith
    define hi where "hi = 55296 + (c - 65536) div 1024 mod 1024"
    define lo where "lo = 56320 + (c - 65536) mod 1024"
    have e: "escape_char c = 92 # 117 # hex4 hi @ 92 # 117 # hex4 lo"
      using pair unfolding hi_def lo_def by (simp add: escape_char_def)
    obtain a b c' d where h4: "hex4 hi = [a, b, c', d]"
      using hex4_shape [of hi] by blast
    obtain a2 b2 c2 d2 where l4: "hex4 lo = [a2, b2, c2, d2]"
      using hex4_shape [of lo] by blast
    have dr: "drop 11 (117 # hex4 hi @ 92 # 117 # hex4 lo @ s) = s"
      unfolding h4 l4 by simp
    have sp: "scan_escape (117 # hex4 hi @ 92 # 117 # hex4 lo @ s) = Some (c, 11)"
      using scan_escape_pair [OF pair lt, of s] unfolding hi_def lo_def .
    have "scanstring (92 # 117 # hex4 hi @ 92 # 117 # hex4 lo @ s)
          = map_option (\<lambda>(t, r). (c # t, r)) (scanstring s)"
      unfolding scanstring_escaped [OF sp] dr by (rule refl)
    then show ?thesis unfolding e by simp
  qed
qed

lemma scanstring_escaped_text:
  "list_all wf_char s \<Longrightarrow>
   scanstring (concat (map escape_char s) @ 34 # rest) = Some (s, rest)"
proof (induction s)
  case Nil
  then show ?case by simp
next
  case (Cons c s)
  then have "wf_char c" and ih: "scanstring (concat (map escape_char s) @ 34 # rest) = Some (s, rest)"
    by simp_all
  then show ?case
    using scanstring_escape_char [of c "concat (map escape_char s) @ 34 # rest"]
    by simp
qed

lemma scan_once_string:
  "list_all wf_char s \<Longrightarrow> scan_once lim (dumps_str s @ rest) = Inr (JStr s, rest)"
  by (simp add: dumps_str_def scanstring_escaped_text)

lemma skip_ws_not_ws: "\<not> is_ws c \<Longrightarrow> skip_ws (c # s) = c # s"
  by (simp add: skip_ws_def)

lemma dec_digits_start: "\<exists>c t. dec_digits n = c # t \<and> is_digit c"
  using dec_digits_all_digits [of n] dec_digits_nonempty [of n]
  by (cases "dec_digits n") auto

lemma digit_value_start: "is_digit c \<Longrightarrow> value_start c"
  by (auto simp: is_digit_def value_start_def is_ws_def)

lemma json_dumps_start: "\<exists>c t. json_dumps v = c # t \<and> value_start c"
proof (cases v)
  case JNull
  then show ?thesis by (simp add: ustr_def value_start_def is_ws_def)
next
  case (JBool b)
  then show ?thesis by (simp add: ustr_def value_start_def is_ws_def)
next
  case (JInt i)
  obtain c t where "dec_digits (nat (- i)) = c # t" "is_digit c"
    using dec_digits_start by blast
  moreover obtain c' t' where "dec_digits (nat i) = c' # t'" "is_digit c'"
    using dec_digits_start by blast
  ultimately show ?thesis
    using JInt by (auto simp: int_repr_def digit_value_start) (simp add: value_start_def is_ws_def)
next
  case (JFloat f)
  show ?thesis
  proof (cases f)
    case (Finite neg ip frac ex)
    obtain c t where "dec_digits ip = c # t" "is_digit c"
      using dec_digits_start by blast
    then show ?thesis
      using JFloat Finite
      by (cases neg) (auto simp: digit_value_start, simp add: value_start_def is_ws_def)
  qed (simp_all add: JFloat ustr_def value_start_def is_ws_def)
next
  case (JStr s)
  then show ?thesis by (simp add: dumps_str_def value_start_def is_ws_def)
next
  case (JArr xs)
  then show ?thesis by (simp add: value_start_def is_ws_def)
next
  case (JObj kvs)
  then show ?thesis by (simp add: value_start_def is_ws_def)
qed

lemma skip_ws_json_dumps: "skip_ws (json_dumps v @ t) = json_dumps v @ t"
  using json_dumps_start [of v] by (auto simp: value_start_def skip_ws_not_ws)

lemma dumps_items_Cons: "\<exists>t. dumps_items (x # xs) = json_dumps x @ t"
  by (cases xs) auto

lemma skip_ws_dumps_items: "skip_ws (dumps_items (x # xs) @ t) = dumps_items (x # xs) @ t"
  using dumps_items_Cons [of x xs] skip_ws_json_dumps by (metis append.assoc)

lemma dumps_items_start: "\<exists>c t. dumps_items (x # xs) = c # t \<and> c \<noteq> 93"
  using dumps_items_Cons [of x xs] json_dumps_start [of x]
  by (auto simp: value_start_def)

lemma dumps_pairs_start: "\<exists>t. dumps_pairs (kv # kvs) = 34 # t"
  by (cases kv; cases kvs) (auto simp: dumps_str_def)

lemma skip_ws_dumps_pairs: "skip_ws (dumps_pairs (kv # kvs) @ t) = dumps_pairs (kv # kvs) @ t"
  using dumps_pairs_start [of kv kvs] by (auto simp: skip_ws_not_ws is_ws_def)

lemma scan_items_last:
  "scan_once lim s = Inr (v, 93 # rest) \<Longrightarrow> scan_items lim s = Inr ([v], rest)"
  by (subst scan_items.simps) (simp add: skip_ws_not_ws is_ws_def)

lemma scan_items_more:
  "scan_once lim s = Inr (v, 44 # t) \<Longrightarrow> length t < length s \<Longrightarrow> skip_ws t = t \<Longrightarrow>
   scan_items lim t = Inr (vs, rest) \<Longrightarrow> scan_items lim s = Inr (v # vs, rest)"
  by (subst scan_items.simps) (simp add: skip_ws_not_ws is_ws_def)

lemma scan_members_last:
  "scanstring s0 = Some (k, 58 # r1) \<Longrightarrow> length r1 < Suc (length s0) \<Longrightarrow> skip_ws r1 = r1 \<Longrightarrow>
   scan_once lim r1 = Inr (v, 125 # rest) \<Longrightarrow>
   scan_members lim (34 # s0) = Inr ([(k, v)], rest)"
  by (subst scan_members.simps) (simp add: skip_ws_not_ws is_ws_def)

lemma scan_members_more:
  "scanstring s0 = Some (k, 58 # r1) \<Longrightarrow> length r1 < Suc (length s0) \<Longrightarrow> skip_ws r1 = r1 \<Longrightarrow>
   scan_once lim r1 = Inr (v, 44 # t) \<Longrightarrow> length t < Suc (length s0) \<Longrightarrow> skip_ws t = t \<Longrightarrow>
   scan_members lim t = Inr (kvs, rest) \<Longrightarrow>
   scan_members lim (34 # s0) = Inr ((k, v) # kvs, rest)"
  by (subst scan_members.simps) (simp add: skip_ws_not_ws is_ws_def)

lemma scan_once_array:
  "skip_ws s = c # t \<Longrightarrow> c \<noteq> 93 \<Longrightarrow> scan_items lim (c # t) = Inr (vs, rest) \<Longrightarrow>
   scan_once (Suc lim) (91 # s) = Inr (JArr vs, rest)"
  by simp

lemma scan_once_object:
  "skip_ws s = c # t \<Longrightarrow> c \<noteq> 125 \<Longrightarrow> scan_members lim (c # t) = Inr (kvs, rest) \<Longrightarrow>
   scan_once (Suc lim) (123 # s) = Inr (JObj (dict_of_pairs [] kvs), rest)"
  by simp

lemma scan_once_number:
  "is_digit c \<or> c = 45 \<Longrightarrow> match_number (c # s) = Some res \<Longrightarrow> scan_once lim (c # s) = res"
  by (auto simp: is_digit_def)

lemma dict_set_new: "k \<notin> fst ` set d \<Longrightarrow> dict_set d k v = d @ [(k, v)]"
  by (induction d) auto

lemma dict_of_pairs_distinct:
  "distinct (map fst (d @ kvs)) \<Longrightarrow> dict_of_pairs d kvs = d @ kvs"
proof (induction kvs arbitrary: d)
  case Nil
  then show ?case by simp
next
  case (Cons kv kvs)
  obtain k v where kv: "kv = (k, v)" by (cases kv)
  have "k \<notin> fst ` set d" using Cons.prems kv by auto
  then have "dict_set d k v = d @ [(k, v)]" by (rule dict_set_new)
  moreover have "distinct (map fst ((d @ [(k, v)]) @ kvs))" using Cons.prems kv by simp
  ultimately show ?case using Cons.IH [of "d @ [(k, v)]"] kv by simp
qed

lemma num_end_delims: "num_end (93 # r)" "num_end (44 # r)" "num_end (125 # r)" "num_end [10]"
  by (simp_all add: num_end_def is_digit_def)

lemma scan_once_int:
  assumes "num_end rest" "length (dec_digits (nat \<bar>i\<bar>)) \<le> int_max_str_digits"
  shows "scan_once lim (int_repr i @ rest) = Inr (JInt i, rest)"
proof -
  have "\<exists>c t. int_repr i @ rest = c # t \<and> (is_digit c \<or> c = 45)"
  proof (cases "i < 0")
    case True
    then show ?thesis by (simp add: int_repr_def)
  next
    case False
    obtain c t where "dec_digits (nat i) = c # t" "is_digit c"
      using dec_digits_start by blast
    with False show ?thesis by (simp add: int_repr_def)
  qed
  then obtain c t where ct: "int_repr i @ rest = c # t" "is_digit c \<or> c = 45"
    by blast
  show ?thesis
    using scan_once_number [OF ct(2), of t _ lim] match_number_int_repr [OF assms, of]
    unfolding ct(1) by simp
qed

lemma scan_int_part_no_digit: "\<not> is_digit c \<Longrightarrow> scan_int_part (c # s) = []"
  by (auto simp: scan_int_part_def is_digit_def)

lemma match_number_no_digit:
  "c \<noteq> 45 \<Longrightarrow> \<not> is_digit c \<Longrightarrow> match_number (c # s) = None"
  by (simp add: match_number_def scan_int_part_no_digit)

lemma match_number_minus_no_digit:
  "\<not> is_digit c \<Longrightarrow> match_number (45 # c # s) = None"
  by (simp add: match_number_def scan_int_part_no_digit)

lemma scan_once_float:
  assumes "num_end rest" "wf_float f"
  shows "scan_once lim (float_repr f @ rest) = Inr (JFloat f, rest)"
proof (cases f)
  case (Finite neg ip frac ex)
  have "\<exists>c t. float_repr f @ rest = c # t \<and> (is_digit c \<or> c = 45)"
  proof (cases neg)
    case True
    then show ?thesis using Finite by simp
  next
    case False
    obtain c t where "dec_digits ip = c # t" "is_digit c"
      using dec_digits_start by blast
    with False show ?thesis using Finite by simp
  qed
  then obtain c t where ct: "float_repr f @ rest = c # t" "is_digit c \<or> c = 45"
    by blast
  show ?thesis
    using scan_once_number [OF ct(2), of t _ lim]
      match_number_float [OF assms(1), of neg ip frac ex] assms(2) Finite
    unfolding ct(1) [symmetric] by simp
next
  case NaN
  then show ?thesis using assms by simp
next
  case Infinity
  have "match_number (73 # 110 # 102 # 105 # 110 # 105 # 116 # 121 # rest) = None"
    by (rule match_number_no_digit) (simp_all add: is_digit_def)
  with Infinity show ?thesis
    by (simp add: ustr_def)
next
  case NegInfinity
  have "match_number (45 # 73 # 110 # 102 # 105 # 110 # 105 # 116 # 121 # rest) = None"
    by (rule match_number_minus_no_digit) (simp add: is_digit_def)
  with NegInfinity show ?thesis
    by (simp add: ustr_def)
qed

lemma roundtrip_scan:
  "\<forall>rest lim. wf_json v \<longrightarrow> json_depth v \<le> lim \<longrightarrow> num_end rest \<longrightarrow>
     scan_once lim (json_dumps v @ rest) = Inr (v, rest)"
  "\<forall>rest lim. wf_items vs \<longrightarrow> items_depth vs \<le> lim \<longrightarrow> vs \<noteq> [] \<longrightarrow>
     scan_items lim (dumps_items vs @ 93 # rest) = Inr (vs, rest)"
  "\<forall>rest lim. wf_pairs kvs \<longrightarrow> pairs_depth kvs \<le> lim \<longrightarrow> kvs \<noteq> [] \<longrightarrow>
     scan_members lim (dumps_pairs kvs @ 125 # rest) = Inr (kvs, rest)"
proof (induction v and vs and kvs rule: json_dumps_dumps_items_dumps_pairs.induct)
  case 1
  show ?case by (simp add: ustr_def)
next
  case (2 b)
  show ?case by (simp add: ustr_def)
next
  case (3 i)
  show ?case by (simp add: scan_once_int)
next
  case (4 f)
  show ?case by (simp add: scan_once_float)
next
  case (5 s)
  show ?case by (simp add: scan_once_string)
next
  case (6 xs)
  show ?case
  proof (intro allI impI)
    fix rest lim
    assume wf: "wf_json (JArr xs)" and dp: "json_depth (JArr xs) \<le> lim" and "num_end rest"
    from dp obtain l where l: "lim = Suc l" "items_depth xs \<le> l"
      by (cases lim) simp_all
    show "scan_once lim (json_dumps (JArr xs) @ rest) = Inr (JArr xs, rest)"
    proof (cases xs)
      case Nil
      then show ?thesis using l by (simp add: skip_ws_not_ws is_ws_def)
    next
      case (Cons y ys)
      obtain c t where ct: "dumps_items (y # ys) = c # t" "c \<noteq> 93"
        using dumps_items_start by blast
      have sk: "skip_ws (dumps_items xs @ 93 # rest) = c # (t @ 93 # rest)"
        using skip_ws_dumps_items [of y ys "93 # rest"] ct Cons by simp
      have "scan_items l (dumps_items xs @ 93 # rest) = Inr (xs, rest)"
        using 6 wf l Cons by simp
      then have it: "scan_items l (c # (t @ 93 # rest)) = Inr (xs, rest)"
        using ct Cons by simp
      have "scan_once (Suc l) (91 # (dumps_items xs @ 93 # rest)) = Inr (JArr xs, rest)"
        by (rule scan_once_array [OF sk ct(2) it])
      then show ?thesis using l by simp
    qed
  qed
next
  case (7 kvs)
  show ?case
  proof (intro allI impI)
    fix rest lim
    assume wf: "wf_json (JObj kvs)" and dp: "json_depth (JObj kvs) \<le> lim" and "num_end rest"
    from dp obtain l where l: "lim = Suc l" "pairs_depth kvs \<le> l"
      by (cases lim) simp_all
    show "scan_once lim (json_dumps (JObj kvs) @ rest) = Inr (JObj kvs, rest)"
    proof (cases kvs)
      case Nil
      then show ?thesis using l by (simp add: skip_ws_not_ws is_ws_def)
    next
      case (Cons kv kvs')
      obtain t where ct: "dumps_pairs (kv # kvs') = 34 # t"
        using dumps_pairs_start by blast
      have sk: "skip_ws (dumps_pairs kvs @ 125 # rest) = 34 # (t @ 125 # rest)"
        using skip_ws_dumps_pairs [of kv kvs' "125 # rest"] ct Cons by simp
      have "scan_members l (dumps_pairs kvs @ 125 # rest) = Inr (kvs, rest)"
        using 7 wf l Cons by simp
      then have it: "scan_members l (34 # (t @ 125 # rest)) = Inr (kvs, rest)"
        using ct Cons by simp
      have "scan_once (Suc l) (123 # (dumps_pairs kvs @ 125 # rest))
            = Inr (JObj (dict_of_pairs [] kvs), rest)"
        by (rule scan_once_object [OF sk _ it]) simp
      moreover have "dict_of_pairs [] kvs = kvs"
        using dict_of_pairs_distinct [of "[]" kvs] wf by simp
      ultimately show ?thesis using l by simp
    qed
  qed
next
  case 8
  show ?case by simp
next
  case (9 x)
  show ?case
  proof (intro allI impI)
    fix rest lim assume wf: "wf_items [x]" and dp: "items_depth [x] \<le> lim"
    have "scan_once lim (json_dumps x @ 93 # rest) = Inr (x, 93 # rest)"
      using 9 wf dp by (simp add: num_end_delims)
    then show "scan_items lim (dumps_items [x] @ 93 # rest) = Inr ([x], rest)"
      by (simp add: scan_items_last)
  qed
next
  case (10 x y xs)
  show ?case
  proof (intro allI impI)
    fix rest lim
    assume wf: "wf_items (x # y # xs)" and dp: "items_depth (x # y # xs) \<le> lim"
    let ?t = "dumps_items (y # xs) @ 93 # rest"
    have a: "scan_once lim (json_dumps x @ 44 # ?t) = Inr (x, 44 # ?t)"
      using 10(1) wf dp by (simp add: num_end_delims)
    have b: "length ?t < length (json_dumps x @ 44 # ?t)" by simp
    have c: "skip_ws ?t = ?t" by (rule skip_ws_dumps_items)
    have d: "scan_items lim ?t = Inr (y # xs, rest)"
      using 10(2) wf dp by simp
    have "scan_items lim (json_dumps x @ 44 # ?t) = Inr (x # y # xs, rest)"
      by (rule scan_items_more [OF a b c d])
    then show "scan_items lim (dumps_items (x # y # xs) @ 93 # rest) = Inr (x # y # xs, rest)"
      by simp
  qed
next
  case 11
  show ?case by simp
next
  case (12 k v)
  show ?case
  proof (intro allI impI)
    fix rest lim assume wf: "wf_pairs [(k, v)]" and dp: "pairs_depth [(k, v)] \<le> lim"
    let ?r1 = "json_dumps v @ 125 # rest"
    let ?s0 = "concat (map escape_char k) @ 34 # 58 # ?r1"
    have a: "scanstring ?s0 = Some (k, 58 # ?r1)"
      using wf by (simp add: scanstring_escaped_text)
    have b: "length ?r1 < Suc (length ?s0)" by simp
    have c: "skip_ws ?r1 = ?r1" by (rule skip_ws_json_dumps)
    have d: "scan_once lim ?r1 = Inr (v, 125 # rest)"
      using 12 wf dp by (simp add: num_end_delims)
    have "scan_members lim (34 # ?s0) = Inr ([(k, v)], rest)"
      by (rule scan_members_last [OF a b c d])
    then show "scan_members lim (dumps_pairs [(k, v)] @ 125 # rest) = Inr ([(k, v)], rest)"
      by (simp add: dumps_str_def)
  qed
next
  case (13 k v kv kvs)
  show ?case
  proof (intro allI impI)
    fix rest lim
    assume wf: "wf_pairs ((k, v) # kv # kvs)" and dp: "pairs_depth ((k, v) # kv # kvs) \<le> lim"
    let ?t = "dumps_pairs (kv # kvs) @ 125 # rest"
    let ?r1 = "json_dumps v @ 44 # ?t"
    let ?s0 = "concat (map escape_char k) @ 34 # 58 # ?r1"
    have a: "scanstring ?s0 = Some (k, 58 # ?r1)"
      using wf by (simp add: scanstring_escaped_text)
    have b: "length ?r1 < Suc (length ?s0)" by simp
    have c: "skip_ws ?r1 = ?r1" by (rule skip_ws_json_dumps)
    have d: "scan_once lim ?r1 = Inr (v, 44 # ?t)"
      using 13(1) wf dp by (simp add: num_end_delims)
    have e: "length ?t < Suc (length ?s0)" by simp
    have f: "skip_ws ?t = ?t" by (rule skip_ws_dumps_pairs)
    have g: "scan_members lim ?t = Inr (kv # kvs, rest)"
      using 13(2) wf dp by (cases kv) simp
    have "scan_members lim (34 # ?s0) = Inr ((k, v) # kv # kvs, rest)"
      by (rule scan_members_more [OF a b c d e f g])
    then show "scan_members lim (dumps_pairs ((k, v) # kv # kvs) @ 125 # rest)
               = Inr ((k, v) # kv # kvs, rest)"
      by (simp add: dumps_str_def)
  qed
qed

lemma json_loads_dumps:
  assumes "wf_json v" "json_depth v \<le> lim"
  shows "json_loads lim (json_dumps v @ [10]) = Inr v"
proof -
  have a: "skip_ws (json_dumps v @ [10]) = json_dumps v @ [10]"
    by (rule skip_ws_json_dumps)
  have b: "scan_once lim (json_dumps v @ [10]) = Inr (v, [10])"
    using roundtrip_scan(1) [of v] assms by (simp add: num_end_delims)
  have c: "skip_ws [10] = []"
    by (simp add: skip_ws_def is_ws_def)
  show ?thesis
    unfolding json_loads_def a b using c by simp
qed

lemma utf8_decode_ascii:
  "ascii t \<Longrightarrow> utf8_decode (map of_char (map char_of t :: string)) = Some t"
proof (induction t)
  case Nil
  then show ?case by simp
next
  case (Cons c t)
  then have "c < 128" by simp
  then have "of_char (char_of c :: char) = c" by simp
  with Cons show ?case by simp
qed

lemma bytes_decode_ascii: "ascii t \<Longrightarrow> bytes_decode (map char_of t) = Inr t"
  unfolding bytes_decode_def by (simp only: utf8_decode_ascii option.case)

lemma decode_line_framed:
  assumes "wf_json v" "json_depth v \<le> lim"
  shows "decode_line lim (framed v) = Inr v"
proof -
  have "ascii (json_dumps v @ [10])" by (simp add: ascii_json_dumps)
  then have "bytes_decode (framed v) = Inr (json_dumps v @ [10])"
    unfolding framed_def by (rule bytes_decode_ascii)
  moreover have "framed v \<noteq> []" by (simp add: framed_def)
  ultimately show ?thesis
    using json_loads_dumps [OF assms] by (simp add: decode_line_def)
qed

section \<open>Every scanner leaves a shorter text\<close>

text \<open>So the comparisons of lengths in \<open>scan_items\<close> and \<open>scan_members\<close> never fail.\<close>

lemma scanstring_shorter: "scanstring s = Some (t, r) \<Longrightarrow> length r < length s"
proof (induction s arbitrary: t r rule: scanstring.induct)
  case 1
  then show ?case by simp
next
  case (2 c s)
  show ?case
  proof (cases "c = 34")
    case True
    with 2 show ?thesis by simp
  next
    case nq: False
    show ?thesis
    proof (cases "c = 92")
      case True
      with nq 2(3) obtain ch n t' where e: "scan_escape s = Some (ch, n)"
        and r: "scanstring (drop n s) = Some (t', r)"
        by (auto split: option.splits)
      have "length r < length (drop n s)"
        using 2(1) [OF nq True e refl r] .
      then show ?thesis by simp
    next
      case False
      with nq 2(3) obtain t' where "\<not> c < 32" "scanstring s = Some (t', r)"
        by (auto split: if_splits)
      then have "length r < length s"
        using 2(2) [OF nq False] by simp
      then show ?thesis by simp
    qed
  qed
qed

lemma match_number_None: "scan_int_part (if s \<noteq> [] \<and> hd s = 45 then tl s else s) = [] \<Longrightarrow>
  match_number s = None"
  by (simp add: match_number_def Let_def)

lemma length_scan_int_part: "length (scan_int_part s) \<le> length s"
proof (cases s)
  case Nil
  then show ?thesis by (simp add: scan_int_part_def)
next
  case (Cons c r)
  have "length (takeWhile is_digit s) \<le> length s" by (rule length_takeWhile_le)
  then show ?thesis using Cons by (simp add: scan_int_part_def)
qed

lemma match_number_shorter:
  assumes "match_number s = Some (Inr (v, r))"
  shows "length r < length s"
proof -
  define neg where "neg = (s \<noteq> [] \<and> hd s = 45)"
  define s1 where "s1 = (if neg then tl s else s)"
  define ipd where "ipd = scan_int_part s1"
  define s2 where "s2 = drop (length ipd) s1"
  define fr where "fr = scan_frac s2"
  define s3 where "s3 = (if fr = [] then s2 else drop (1 + length fr) s2)"
  obtain ex n where ex: "scan_exp s3 = (ex, n)" by (cases "scan_exp s3")
  define s4 where "s4 = drop n s3"
  have ne: "ipd \<noteq> []"
    using assms match_number_None [of s] unfolding ipd_def s1_def neg_def by auto
  have a: "s = (if neg then 45 # s1 else s1)"
    unfolding s1_def neg_def by (cases s) auto
  have b: "neg \<or> s1 = [] \<or> hd s1 \<noteq> 45"
    unfolding s1_def neg_def by auto
  have "r = s4"
    using assms
    unfolding match_number_steps [OF a b ipd_def ne s2_def fr_def s3_def ex s4_def]
    by (auto split: if_splits)
  moreover have "length s4 \<le> length s3" unfolding s4_def by simp
  moreover have "length s3 \<le> length s2" unfolding s3_def by simp
  moreover have "length s2 < length s1"
    using ne length_scan_int_part [of s1] unfolding s2_def ipd_def
    by (cases "scan_int_part s1") auto
  moreover have "length s1 \<le> length s" unfolding s1_def by simp
  ultimately show ?thesis by simp
qed

lemma scan_shorter:
  "\<forall>v r. scan_once lim s = Inr (v, r) \<longrightarrow> length r < length s"
  "\<forall>vs r. scan_items lim t = Inr (vs, r) \<longrightarrow> length r < length t"
  "\<forall>kvs r. scan_members lim u = Inr (kvs, r) \<longrightarrow> length r < length u"
proof (induction lim s and lim t and lim u rule: scan_once_scan_items_scan_members.induct)
  case (1 lim)
  show ?case by simp
next
  case (2 lim c s)
  show ?case
  proof (intro allI impI)
    fix v r assume h: "scan_once lim (c # s) = Inr (v, r)"
    have sk: "length (skip_ws s) \<le> length s" by (rule length_skip_ws)
    consider (str) "c = 34" | (obj) "c \<noteq> 34" "c = 123" | (arr) "c \<noteq> 34" "c \<noteq> 123" "c = 91"
      | (other) "c \<noteq> 34" "c \<noteq> 123" "c \<noteq> 91"
      by blast
    then show "length r < length (c # s)"
    proof cases
      case str
      with h obtain t where "scanstring s = Some (t, r)"
        by (auto split: option.splits)
      then show ?thesis using scanstring_shorter by fastforce
    next
      case obj
      show ?thesis
      proof (cases "lim = 0")
        case True
        with h obj show ?thesis by simp
      next
        case nz: False
        show ?thesis
        proof (cases "skip_ws s")
          case Nil
          with h obj nz show ?thesis by simp
        next
          case (Cons d r0)
          show ?thesis
          proof (cases "d = 125")
            case True
            with h obj nz Cons have "r = r0" by simp
            then show ?thesis using sk Cons by simp
          next
            case False
            with h obj nz Cons obtain kvs where "scan_members (lim - 1) (skip_ws s) = Inr (kvs, r)"
              by (auto split: sum.splits)
            then have "length r < length (skip_ws s)"
              using 2(1) [OF obj nz Cons False] by blast
            then show ?thesis using sk by simp
          qed
        qed
      qed
    next
      case arr
      show ?thesis
      proof (cases "lim = 0")
        case True
        with h arr show ?thesis by simp
      next
        case nz: False
        show ?thesis
        proof (cases "skip_ws s")
          case Nil
          with h arr nz show ?thesis by simp
        next
          case (Cons d r0)
          show ?thesis
          proof (cases "d = 93")
            case True
            with h arr nz Cons have "r = r0" by simp
            then show ?thesis using sk Cons by simp
          next
            case False
            with h arr nz Cons obtain vs where "scan_items (lim - 1) (skip_ws s) = Inr (vs, r)"
              by (auto split: sum.splits)
            then have "length r < length (skip_ws s)"
              using 2(2) [OF arr nz Cons False] by blast
            then show ?thesis using sk by simp
          qed
        qed
      qed
    next
      case other
      consider (lit) "r = drop 3 s \<or> r = drop 4 s \<or> r = drop 2 s \<or> r = drop 7 s \<or> r = drop 8 s"
        | (num) "match_number (c # s) = Some (Inr (v, r))"
        using h other by (auto split: if_splits option.splits)
      then show ?thesis
      proof cases
        case lit
        then show ?thesis by auto
      next
        case num
        then show ?thesis by (rule match_number_shorter)
      qed
    qed
  qed
next
  case (3 lim s)
  show ?case
  proof (intro allI impI)
    fix vs r assume h: "scan_items lim s = Inr (vs, r)"
    from h obtain v r0 where a: "scan_once lim s = Inr (v, r0)"
      by (subst (asm) scan_items.simps) (auto split: sum.splits)
    then have l0: "length r0 < length s" using 3(1) by blast
    from h a obtain d r1 where b: "skip_ws r0 = d # r1"
      by (subst (asm) scan_items.simps) (auto split: list.splits)
    have l1: "length r1 < length s"
      using l0 length_skip_ws [of r0] b by simp
    show "length r < length s"
    proof (cases "d = 93")
      case True
      with h a b have "r = r1"
        by (subst (asm) scan_items.simps) simp
      then show ?thesis using l1 by simp
    next
      case False
      with h a b obtain vs' where c: "d = 44" "scan_items lim (skip_ws r1) = Inr (vs', r)"
        by (subst (asm) scan_items.simps) (auto split: if_splits sum.splits)
      have "length r < length (skip_ws r1)"
        using 3(2) [OF a [THEN sym, THEN sym] refl b False] c l1 by blast
      then show ?thesis using l1 length_skip_ws [of r1] by simp
    qed
  qed
next
  case (4 lim s)
  show ?case
  proof (intro allI impI)
    fix kvs r assume h: "scan_members lim s = Inr (kvs, r)"
    from h obtain s0 where s: "s = 34 # s0"
      by (subst (asm) scan_members.simps) (auto split: list.splits if_splits)
    from h s obtain k r0 where a: "scanstring s0 = Some (k, r0)"
      by (subst (asm) scan_members.simps) (auto split: option.splits)
    from h s a obtain col r1 where b: "skip_ws r0 = col # r1"
      by (subst (asm) scan_members.simps) (auto split: list.splits)
    from h s a b have c: "col = 58" "length r1 < length s"
      by (subst (asm) scan_members.simps, auto split: if_splits)+
    from h s a b c obtain v r2 where d: "scan_once lim (skip_ws r1) = Inr (v, r2)"
      by (subst (asm) scan_members.simps) (auto split: sum.splits)
    have l2: "length r2 < length (skip_ws r1)"
      using 4(1) [OF s _ a refl b] c d by auto
    then have l2': "length r2 < length s"
      using c(2) length_skip_ws [of r1] by simp
    from h s a b c d obtain e r3 where f: "skip_ws r2 = e # r3"
      by (subst (asm) scan_members.simps) (auto split: list.splits)
    have l3: "length r3 < length s"
      using l2' length_skip_ws [of r2] f by simp
    show "length r < length s"
    proof (cases "e = 125")
      case True
      with h s a b c d f have "r = r3"
        by (subst (asm) scan_members.simps) simp
      then show ?thesis using l3 by simp
    next
      case False
      with h s a b c d f obtain kvs' where g: "e = 44"
        "scan_members lim (skip_ws r3) = Inr (kvs', r)"
        by (subst (asm) scan_members.simps) (auto split: if_splits sum.splits)
      have "length r < length (skip_ws r3)"
        using 4(2) [OF s _ a refl b _ d refl f False] c g l3 by auto
      then show ?thesis using l3 length_skip_ws [of r3] by simp
    qed
  qed
qed

section \<open>Properties of the codec\<close>

lemma wf_ustr_keys:
  "list_all wf_char (ustr ''type'')" "list_all wf_char (ustr ''entry'')"
  "list_all wf_char (ustr ''title'')" "list_all wf_char (ustr ''queue'')"
  "list_all wf_char (ustr ''track'')" "list_all wf_char (ustr ''position'')"
  "list_all wf_char (ustr ''duration'')" "list_all wf_char (ustr ''paused'')"
  "list_all wf_char (ustr ''hello'')" "list_all wf_char (ustr ''add'')"
  "list_all wf_char (ustr ''ack'')" "list_all wf_char (ustr ''sync'')"
  by (simp_all add: ustr_def wf_char_def)

lemma wf_messages:
  "wf_json hello_msg"
  "wf_json entry \<Longrightarrow> wf_json (add_msg entry)"
  "wf_json title \<Longrightarrow> wf_json (ack_msg title)"
  "wf_json queue \<Longrightarrow> wf_json track \<Longrightarrow> wf_json pos \<Longrightarrow> wf_json dur \<Longrightarrow>
   wf_json psd \<Longrightarrow> wf_json (sync_msg queue track pos dur psd)"
  by (simp_all add: hello_msg_def add_msg_def ack_msg_def sync_msg_def wf_ustr_keys)
     (simp_all add: ustr_def)

text \<open>
  C3. For each message the program builds (\<open>hello\<close>, \<open>add\<close> with its entry, \<open>ack\<close> with its
  title, \<open>sync\<close> with or without a track), made of well-formed values and nested no deeper
  than the interpreter allows, \<open>encode_msg\<close> yields the frame of the message and
  \<open>decode_line\<close> on that frame yields the message again; so does \<open>read_msg\<close> on a reader that
  delivers the frame as its next line.
\<close>

theorem decode_encode_roundtrip:
  assumes "wf_json entry" "wf_json title" "wf_json queue" "wf_json track"
    and "wf_json pos" "wf_json dur"
  shows "\<forall>m \<in> set [hello_msg, add_msg entry, ack_msg title,
                    sync_msg queue track pos dur (JBool psd),
                    sync_msg queue JNull pos dur (JBool psd)].
           json_depth m \<le> lim \<longrightarrow>
           encode_msg m = Inr (framed m) \<and> decode_line lim (framed m) = Inr m
           \<and> read_msg lim (Line (framed m) # r) = (Inr m, r)"
proof -
  have rt: "encode_msg m = Inr (framed m) \<and> decode_line lim (framed m) = Inr m
            \<and> read_msg lim (Line (framed m) # r) = (Inr m, r)"
    if "wf_json m" "json_depth m \<le> lim" for m
    using decode_line_framed [OF that] encode_msg_eq [of m] by (simp add: read_msg_def)
  have "wf_json (sync_msg queue track pos dur (JBool psd))"
    "wf_json (sync_msg queue JNull pos dur (JBool psd))"
    using assms by (simp_all add: wf_messages)
  then show ?thesis
    using assms rt by (simp add: wf_messages)
qed

theorem decode_encode_roundtrip_witness:
  "decode_line 3 (framed (sync_msg (JArr []) JNull (JFloat (Finite False 30 [5] None)) (JInt 200)
      (JBool False)))
   = Inr (sync_msg (JArr []) JNull (JFloat (Finite False 30 [5] None)) (JInt 200) (JBool False))
   \<and> decode_line 3 (framed (add_msg (JObj [(ustr ''id'', JStr (ustr ''x'')),
                                          (ustr ''title'', JStr [83, 246, 110, 103, 128512])])))
   = Inr (add_msg (JObj [(ustr ''id'', JStr (ustr ''x'')),
                         (ustr ''title'', JStr [83, 246, 110, 103, 128512])]))"
proof -
  have e: "wf_json (JObj [(ustr ''id'', JStr (ustr ''x'')),
                          (ustr ''title'', JStr [83, 246, 110, 103, 128512])])"
    by (simp add: ustr_def wf_char_def)
  have t: "wf_json (JStr (ustr ''Song''))"
    by (simp add: ustr_def wf_char_def)
  have q: "wf_json (JArr [])" by simp
  have n: "wf_json JNull" by simp
  have p: "wf_json (JFloat (Finite False 30 [5] None))" by simp
  have d: "wf_json (JInt 200)"
    by (simp add: dec_digits.simps int_max_str_digits_def)
  have d1: "json_depth (sync_msg (JArr []) JNull (JFloat (Finite False 30 [5] None)) (JInt 200)
              (JBool False)) \<le> 3"
    by (simp add: sync_msg_def)
  have d2: "json_depth (add_msg (JObj [(ustr ''id'', JStr (ustr ''x'')),
                          (ustr ''title'', JStr [83, 246, 110, 103, 128512])])) \<le> 3"
    by (simp add: add_msg_def)
  show ?thesis
    using decode_encode_roundtrip [OF e t q n p d, of False 3] d1 d2
    by simp
qed

lemma bytes_decode_error: "bytes_decode b = Inl e \<Longrightarrow> e = UnicodeDecodeError"
  by (auto simp: bytes_decode_def split: option.splits)

text \<open>What \<open>read_msg\<close> does catch.\<close>

lemma decode_line_caught:
  "decode_line lim [] = Inr JNull"
  "bytes_decode line = Inl e \<Longrightarrow> decode_line lim line = Inr JNull"
  "bytes_decode line = Inr t \<Longrightarrow> json_loads lim t = Inl JSONDecodeError \<Longrightarrow>
   decode_line lim line = Inr JNull"
  by (auto simp: decode_line_def dest: bytes_decode_error)

lemma read_msg_caught:
  "read_msg lim (Stall # r) = (Inr JNull, r)"
  "read_msg lim (Broken k # r) = (Inr JNull, r)"
  "read_msg lim (Line [] # r) = (Inr JNull, r)"
  "read_msg lim [] = (Inr JNull, [])"
  by (simp_all add: read_msg_def decode_line_def)

text \<open>What it does not: an integer literal of more than 4300 digits, and nesting deeper
  than the interpreter allows.\<close>

lemma all_digits_replicate: "list_all is_digit (replicate n 49)"
  by (induction n) (simp_all add: is_digit_def)

lemma match_number_long_int:
  assumes "int_max_str_digits < n"
  shows "match_number (replicate n 49 @ [10]) = Some (Inl ValueError)"
proof -
  let ?ds = "replicate n (49::nat)"
  from assms obtain m where n: "n = Suc m" by (cases n) simp_all
  have tw: "takeWhile is_digit (?ds @ [10]) = ?ds"
    using takeWhile_digits [OF all_digits_replicate, of "[10]" n] by (simp add: is_digit_def)
  have s: "?ds @ [10] = (if False then 45 # ?ds @ [10] else ?ds @ [10])"
    by simp
  have hd1: "False \<or> ?ds @ [10] = [] \<or> hd (?ds @ [10]) \<noteq> 45"
    unfolding n by simp
  have ip: "?ds = scan_int_part (?ds @ [10])"
    using tw unfolding n by (simp add: scan_int_part_def)
  have ne: "?ds \<noteq> []"
    unfolding n by simp
  have d1: "[10] = drop (length ?ds) (?ds @ [10])"
    by simp
  have fr: "([] :: ustring) = scan_frac [10]"
    by (simp add: scan_frac_def)
  have d2: "[10 :: nat] = (if ([] :: ustring) = [] then [10] else drop (1 + length ([] :: ustring)) [10])"
    by simp
  have ex: "scan_exp [10] = (None, 0)"
    by (simp add: scan_exp_def)
  have d3: "[10 :: nat] = drop 0 [10]"
    by simp
  show ?thesis
    unfolding match_number_steps [OF s hd1 ip ne d1 fr d2 ex d3]
    using assms by simp
qed

lemma char_of_digit_one: "char_of (49::nat) = CHR ''1''" "char_of (10::nat) = CHR ''\<newline>''"
  "char_of (91::nat) = CHR ''[''"
  by code_simp+

lemma decode_line_long_int:
  assumes "int_max_str_digits < n"
  shows "decode_line lim (replicate n (CHR ''1'') @ [CHR ''\<newline>'']) = Inl ValueError"
proof -
  from assms obtain m where n: "n = Suc m" by (cases n) simp_all
  have line: "replicate n (CHR ''1'') @ [CHR ''\<newline>''] = map char_of (replicate n 49 @ [10 :: nat])"
    by (simp add: char_of_digit_one)
  have "ascii (replicate n 49 @ [10])"
    by (induction n) simp_all
  then have bd: "bytes_decode (replicate n (CHR ''1'') @ [CHR ''\<newline>'']) = Inr (replicate n 49 @ [10])"
    unfolding line by (rule bytes_decode_ascii)
  have "scan_once lim (49 # replicate m 49 @ [10]) = Inl ValueError"
    using scan_once_number [of 49 "replicate m 49 @ [10]" "Inl ValueError" lim]
      match_number_long_int [OF assms] unfolding n by (simp add: is_digit_def)
  then have "json_loads lim (replicate n 49 @ [10]) = Inl ValueError"
    unfolding n by (simp add: json_loads_def skip_ws_not_ws is_ws_def)
  then show ?thesis
    using bd unfolding n by (simp add: decode_line_def)
qed

lemma scan_once_too_deep:
  "lim < n \<Longrightarrow> scan_once lim (replicate n 91 @ rest) = Inl RecursionError"
proof (induction lim arbitrary: n)
  case 0
  then obtain m where "n = Suc m" by (cases n) simp_all
  then show ?case by simp
next
  case (Suc l)
  then obtain m where n: "n = Suc m" and m: "l < m" by (cases n) simp_all
  from m obtain k where k: "m = Suc k" by (cases m) simp_all
  have inner: "scan_once l (replicate m 91 @ rest) = Inl RecursionError"
    by (rule Suc.IH [OF m])
  have sk: "skip_ws (replicate m 91 @ rest) = replicate m 91 @ rest"
    unfolding k by (simp add: skip_ws_not_ws is_ws_def)
  have "scan_items l (replicate m 91 @ rest) = Inl RecursionError"
    by (subst scan_items.simps) (simp add: inner)
  then show ?case
    unfolding n using sk k by simp
qed

lemma decode_line_too_deep:
  assumes "lim < n"
  shows "decode_line lim (replicate n (CHR ''['') @ [CHR ''\<newline>'']) = Inl RecursionError"
proof -
  from assms obtain m where n: "n = Suc m" by (cases n) simp_all
  have line: "replicate n (CHR ''['') @ [CHR ''\<newline>''] = map char_of (replicate n 91 @ [10 :: nat])"
    by (simp add: char_of_digit_one)
  have "ascii (replicate n 91 @ [10])"
    by (induction n) simp_all
  then have bd: "bytes_decode (replicate n (CHR ''['') @ [CHR ''\<newline>'']) = Inr (replicate n 91 @ [10])"
    unfolding line by (rule bytes_decode_ascii)
  have "skip_ws (replicate n 91 @ [10]) = replicate n 91 @ [10]"
    unfolding n by (simp add: skip_ws_not_ws is_ws_def)
  then have "json_loads lim (replicate n 91 @ [10]) = Inl RecursionError"
    using scan_once_too_deep [OF assms, of "[10]"] by (simp add: json_loads_def)
  then show ?thesis
    using bd unfolding n by (simp add: decode_line_def)
qed

text \<open>
  C8 at two lines a peer can send, both shorter than the reader's limit of 64 KiB: 4301
  digits, and 1001 opening brackets when the interpreter allows 1000 levels. \<open>json.loads\<close>
  raises \<open>ValueError\<close> and \<open>RecursionError\<close>; neither is a \<open>JSONDecodeError\<close>, so
  \<open>decode_line\<close> does not return \<open>None\<close> but raises, and so does \<open>read_msg\<close>.
\<close>

theorem decode_line_raises_on_long_int_and_deep_nesting:
  "decode_line lim (replicate 4301 (CHR ''1'') @ [CHR ''\<newline>'']) = Inl ValueError
   \<and> read_msg lim (Line (replicate 4301 (CHR ''1'') @ [CHR ''\<newline>'']) # r) = (Inl ValueError, r)
   \<and> decode_line 1000 (replicate 1001 (CHR ''['') @ [CHR ''\<newline>'']) = Inl RecursionError"
proof -
  have a: "decode_line lim (replicate 4301 (CHR ''1'') @ [CHR ''\<newline>'']) = Inl ValueError"
    by (rule decode_line_long_int) (simp add: int_max_str_digits_def)
  have b: "decode_line 1000 (replicate 1001 (CHR ''['') @ [CHR ''\<newline>'']) = Inl RecursionError"
    by (rule decode_line_too_deep) simp
  have c: "read_msg lim (Line (replicate 4301 (CHR ''1'') @ [CHR ''\<newline>'']) # r)
           = (Inl ValueError, r)"
    unfolding read_msg_def readline.simps prod.case sum.case a by (rule refl)
  show ?thesis using a b c by blast
qed

text \<open>
  C10. A line that is JSON but no object is decoded to its value, not to \<open>None\<close>: a
  number, a list, a string, a boolean. The loops of the server and of the client test
  for \<open>None\<close> only and go on with the value: \<open>_process\<close> and \<open>listen\<close> call \<open>msg.get\<close> on
  it, which raises \<open>AttributeError\<close>.
\<close>

theorem decoder_passes_non_objects:
  "read_msg lim [Line ''5\<newline>''] = (Inr (JInt 5), [])
   \<and> read_msg (Suc lim) [Line ''[1,2]\<newline>''] = (Inr (JArr [JInt 1, JInt 2]), [])
   \<and> read_msg lim [Line ''\"x\"\<newline>''] = (Inr (JStr (ustr ''x'')), [])
   \<and> read_msg lim [Line ''true\<newline>''] = (Inr (JBool True), [])
   \<and> process_msg new_server (JInt 5) good_writer = Inl AttributeError
   \<and> handle_loop lim new_server [Line ''5\<newline>''] good_writer = Inl AttributeError
   \<and> handle_loop (Suc lim) new_server [Line ''[1,2]\<newline>''] good_writer = Inl AttributeError
   \<and> listen lim (new_client\<lparr>creader := Some [Line ''5\<newline>''], connected := True\<rparr>)
       = Inl AttributeError"
  by code_simp

section \<open>Properties of the server\<close>

text \<open>
  C5. With the registry a \<open>dict\<close> (no task twice), \<open>broadcast\<close> encodes the message once,
  to \<open>framed msg\<close>; the pass over the registry writes these bytes to every writer, keeps
  every entry in place and only collects the tasks whose write raised; the pruning after
  the pass leaves exactly the entries whose write went through, each with the same bytes
  appended, so that \<open>client_count\<close> has dropped by the number of failed writes: by one when
  exactly one write failed.
\<close>

theorem broadcast_same_bytes_prune_after_pass:
  assumes "distinct (map fst (clients srv))"
  shows "encode_msg msg = Inr (framed msg)
       \<and> write_all (framed msg) (clients srv)
           = Inr (map (\<lambda>c. (fst c, if write_fault (snd c) = None
                                   then (snd c)\<lparr>written := written (snd c) @ [framed msg]\<rparr>
                                   else snd c)) (clients srv),
                  map fst (filter (\<lambda>c. write_fault (snd c) \<noteq> None) (clients srv)))
       \<and> broadcast srv msg = Inr (srv\<lparr>clients := delivered (framed msg) (clients srv)\<rparr>)
       \<and> client_count (srv\<lparr>clients := delivered (framed msg) (clients srv)\<rparr>)
           = client_count srv - length (filter (\<lambda>c. write_fault (snd c) \<noteq> None) (clients srv))
       \<and> (length (filter (\<lambda>c. write_fault (snd c) \<noteq> None) (clients srv)) = 1 \<longrightarrow>
            client_count (srv\<lparr>clients := delivered (framed msg) (clients srv)\<rparr>)
            = client_count srv - 1)"
proof -
  have count: "client_count (srv\<lparr>clients := delivered (framed msg) (clients srv)\<rparr>)
           = client_count srv - length (filter (\<lambda>c. write_fault (snd c) \<noteq> None) (clients srv))"
    unfolding client_count_def by (simp add: length_delivered)
  show ?thesis
    using encode_msg_eq [of msg] write_all_eq [of "framed msg" "clients srv"]
      broadcast_eq [OF assms, of msg] count
    by presburger
qed

theorem broadcast_same_bytes_prune_after_pass_witness:
  "distinct (map fst [(1::nat, good_writer),
                      (2, good_writer\<lparr>write_fault := Some BrokenPipeError\<rparr>),
                      (3, good_writer)])
   \<and> broadcast (new_server\<lparr>clients := [(1, good_writer),
                      (2, good_writer\<lparr>write_fault := Some BrokenPipeError\<rparr>),
                      (3, good_writer)]\<rparr>) hello_msg
     = Inr (new_server\<lparr>clients := [(1, good_writer\<lparr>written := [framed hello_msg]\<rparr>),
                                    (3, good_writer\<lparr>written := [framed hello_msg]\<rparr>)]\<rparr>)
   \<and> client_count (new_server\<lparr>clients := [(1, good_writer\<lparr>written := [framed hello_msg]\<rparr>),
                                    (3, good_writer\<lparr>written := [framed hello_msg]\<rparr>)]\<rparr>) = 3 - 1"
proof -
  have d: "distinct (map fst (clients (new_server\<lparr>clients := [(1::nat, good_writer),
                      (2, good_writer\<lparr>write_fault := Some BrokenPipeError\<rparr>),
                      (3, good_writer)]\<rparr>)))"
    by simp
  show ?thesis
    using broadcast_same_bytes_prune_after_pass [OF d, of hello_msg]
    by (simp add: delivered_def good_writer_def new_server_def client_count_def)
qed





section \<open>Properties of the client\<close>

lemma connect_total: "\<exists>b c'. connect c opened = Inr (b, c')"
  by (cases opened)
     (auto simp: connect_def send_frame_def encode_msg_eq writer_write_def writer_drain_def Let_def
           split: option.splits sum.splits)

lemma connect_transport_failure: "connect c (Inl k) = Inr (False, c)"
  by (simp add: connect_def)

text \<open>
  C4 at a connection that opens and then breaks while the \<open>hello\<close> frame is flushed:
  \<open>connect\<close> returns \<open>False\<close>, and the flag set before the send stays \<open>True\<close>.
\<close>

theorem connect_hello_failure_leaves_connected:
  "connect new_client (Inr ([], good_writer\<lparr>drain_fault := Some ConnectionResetError\<rparr>))
   = Inr (False, new_client\<lparr>creader := Some [],
                             cwriter := Some (good_writer\<lparr>drain_fault := Some ConnectionResetError\<rparr>),
                             connected := True\<rparr>)"
  by (simp add: connect_def send_frame_def encode_msg_eq writer_write_def writer_drain_def
      good_writer_def)

section \<open>Properties of the controller\<close>

lemma property_or_truthy:
  "get_property lim s name = (Inr v, s') \<Longrightarrow>
   property_or lim s name dflt = (Inr (if truthy v then v else dflt), s')"
  by (simp add: property_or_def py_or_def)

lemma property_or_not_connected:
  "sock s = None \<Longrightarrow> property_or lim s name dflt = (Inr dflt, s)"
  by (simp add: property_or_def get_property_def command_def py_or_def)

lemma property_or_timeout:
  "sock s = Some k \<Longrightarrow> send_fault k = None \<Longrightarrow> incoming k = [] \<Longrightarrow>
   fst (property_or lim s name dflt) = Inr dflt"
  by (simp add: property_or_def get_property_def command_def py_or_def)

lemma property_or_engine_failure:
  "fst (volume (Suc lim) (engine_says ''{\"error\":\"property unavailable\"}\<newline>''))
   = Inr (JFloat (Finite False 100 [0] None))"
  by code_simp

lemma property_or_engine_success:
  "fst (volume (Suc lim)
         (engine_says ''{\"event\":\"idle\"}\<newline>{\"data\":55.000000,\"request_id\":0,\"error\":\"success\"}\<newline>''))
   = Inr (JFloat (Finite False 55 [0, 0, 0, 0, 0, 0] None))"
  by code_simp

text \<open>
  C2 at an engine that answers the request for \<open>volume\<close> with success and the value
  \<open>0.000000\<close> (muted): \<open>get_property\<close> returns that value, and \<open>volume\<close>, which is
  \<open>get_property("volume") or 100.0\<close>, returns \<open>100.0\<close>, because \<open>0.0\<close> is false in Python.
\<close>

theorem volume_zero_reported_as_default:
  "fst (get_property (Suc lim)
         (engine_says ''{\"data\":0.000000,\"request_id\":0,\"error\":\"success\"}\<newline>'')
         (ustr ''volume''))
   = Inr (JFloat (Finite False 0 [0, 0, 0, 0, 0, 0] None))
   \<and> fst (volume (Suc lim)
         (engine_says ''{\"data\":0.000000,\"request_id\":0,\"error\":\"success\"}\<newline>''))
   = Inr (JFloat (Finite False 100 [0] None))"
  by code_simp

lemma stop_proc_total:
  "stop_proc s = Inr (s\<lparr>proc := None\<rparr>)"
  by (simp add: stop_proc_def proc_wait_def proc_terminate_def proc_kill_def Let_def
           split: option.splits sum.splits)

lemma stop_sock_total:
  "stop_sock s = Inr (s\<lparr>sock := None\<rparr>)"
  by (simp add: stop_sock_def sock_close_def split: option.splits sum.splits)

lemma stop_unlink_total:
  "stop_unlink s = Inr (s\<lparr>path_exists := (path_exists s \<and> unlink_fault s \<noteq> None)\<rparr>)"
  by (auto simp: stop_unlink_def os_unlink_def split: option.splits sum.splits)

lemma stop_eq:
  "stop s = Inr (s\<lparr>proc := None, sock := None,
                     path_exists := (path_exists s \<and> unlink_fault s \<noteq> None)\<rparr>)"
  by (simp add: stop_def stop_proc_total stop_sock_total stop_unlink_total)

lemma poll_socket_never:
  "\<forall>j<n. \<not> exists_at s env (i + j) \<Longrightarrow>
   poll_socket n i s env = (False, s\<lparr>slept := slept s + n\<rparr>)"
proof (induction n arbitrary: i s)
  case 0
  then show ?case by simp
next
  case (Suc n)
  have first: "\<not> exists_at s env i"
    using Suc.prems by force
  have rest: "\<forall>j<n. \<not> exists_at (s\<lparr>slept := Suc (slept s)\<rparr>) env (Suc i + j)"
  proof (intro allI impI)
    fix j assume "j < n"
    then have "\<not> exists_at s env (i + Suc j)"
      using Suc.prems by blast
    then show "\<not> exists_at (s\<lparr>slept := Suc (slept s)\<rparr>) env (Suc i + j)"
      by (simp add: exists_at_def)
  qed
  show ?case
    using first Suc.IH [OF rest] by simp
qed


text \<open>
  C7, as the code has it. When the engine process is spawned and the socket path does not
  exist at any of the 30 polls, \<open>play\<close> returns \<open>False\<close> after 30 sleeps and keeps the handle
  of the spawned process, untouched, so that \<open>is_running\<close> is true exactly while that
  process lives. When the spawn raises \<open>FileNotFoundError\<close>, \<open>play\<close> returns \<open>False\<close> without
  any sleep and with no process handle. When the spawn raises any other error, \<open>play\<close>
  raises it.
\<close>

theorem play_failure_modes:
  assumes "stop s = Inr s1"
  shows "(spawn env = Inr p \<and> (\<forall>i<30. \<not> exists_at s1 env i) \<longrightarrow>
            play s env = Inr (False, s1\<lparr>proc := Some p, slept := slept s1 + 30\<rparr>)
            \<and> is_running (s1\<lparr>proc := Some p, slept := slept s1 + 30\<rparr>) = alive p)
       \<and> (spawn env = Inl FileNotFoundError \<longrightarrow>
            play s env = Inr (False, s1) \<and> slept s1 = slept s \<and> proc s1 = None)
       \<and> (spawn env = Inl k \<and> k \<noteq> FileNotFoundError \<longrightarrow> play s env = Inl (OSError k))"
proof (intro conjI impI)
  assume h: "spawn env = Inr p \<and> (\<forall>i<30. \<not> exists_at s1 env i)"
  then have "\<forall>j<30. \<not> exists_at (s1\<lparr>proc := Some p\<rparr>) env (0 + j)"
    by (simp add: exists_at_def)
  then have "poll_socket 30 0 (s1\<lparr>proc := Some p\<rparr>) env
             = (False, s1\<lparr>proc := Some p, slept := slept s1 + 30\<rparr>)"
    using poll_socket_never [of 30 "s1\<lparr>proc := Some p\<rparr>" env 0] by simp
  then show "play s env = Inr (False, s1\<lparr>proc := Some p, slept := slept s1 + 30\<rparr>)"
    using assms h by (simp add: play_def)
next
  show "is_running (s1\<lparr>proc := Some p, slept := slept s1 + 30\<rparr>) = alive p"
    by (simp add: is_running_def)
next
  assume "spawn env = Inl FileNotFoundError"
  then show "play s env = Inr (False, s1)"
    using assms by (simp add: play_def)
next
  show "slept s1 = slept s"
    using assms by (auto simp: stop_eq)
next
  show "proc s1 = None"
    using assms by (auto simp: stop_eq)
next
  assume "spawn env = Inl k \<and> k \<noteq> FileNotFoundError"
  then show "play s env = Inl (OSError k)"
    using assms by (simp add: play_def)
qed

theorem play_failure_modes_witness:
  "stop new_player = Inr new_player
   \<and> play new_player \<lparr>spawn = Inr \<lparr>alive = True, exits_on_term = True\<rparr>,
                        appears_after = None, connect_result = Inr silent_sock\<rparr>
       = Inr (False, new_player\<lparr>proc := Some \<lparr>alive = True, exits_on_term = True\<rparr>,
                                slept := 30\<rparr>)
   \<and> is_running (new_player\<lparr>proc := Some \<lparr>alive = True, exits_on_term = True\<rparr>,
                              slept := 30\<rparr>)
   \<and> play new_player \<lparr>spawn = Inl FileNotFoundError,
                        appears_after = Some 0, connect_result = Inr silent_sock\<rparr>
       = Inr (False, new_player)
   \<and> play new_player \<lparr>spawn = Inl PlainOSError,
                        appears_after = Some 0, connect_result = Inr silent_sock\<rparr>
       = Inl (OSError PlainOSError)"
proof -
  have st: "stop new_player = Inr new_player"
    by (simp add: stop_eq new_player_def)
  have a: "\<forall>i<30. \<not> exists_at new_player
             \<lparr>spawn = Inr \<lparr>alive = True, exits_on_term = True\<rparr>,
              appears_after = None, connect_result = Inr silent_sock\<rparr> i"
    by (simp add: exists_at_def new_player_def)
  show ?thesis
    using st a
      play_failure_modes [OF st, of "\<lparr>spawn = Inr \<lparr>alive = True, exits_on_term = True\<rparr>,
              appears_after = None, connect_result = Inr silent_sock\<rparr>"
              "\<lparr>alive = True, exits_on_term = True\<rparr>"]
      play_failure_modes [OF st, of "\<lparr>spawn = Inl FileNotFoundError,
              appears_after = Some 0, connect_result = Inr silent_sock\<rparr>"]
      play_failure_modes [OF st, of "\<lparr>spawn = Inl PlainOSError,
              appears_after = Some 0, connect_result = Inr silent_sock\<rparr>" _ PlainOSError]
    by (simp add: new_player_def)
qed

text \<open>
  A spawn that fails otherwise, here with \<open>PermissionError\<close>, is not caught by
  \<open>except FileNotFoundError\<close>: \<open>play\<close> raises instead of returning \<open>False\<close>.
\<close>

theorem play_spawn_permission_error_raises:
  "play new_player \<lparr>spawn = Inl PermissionError, appears_after = None,
                      connect_result = Inr silent_sock\<rparr>
   = Inl (OSError PermissionError)"
  by (simp add: play_def stop_eq new_player_def)

end
